theory Spec2Isabelle
  imports Complex_Main "HOL-Library.Multiset"
begin

unbundle bit_operations_syntax

section \<open>Data model\<close>

text \<open>
  The knowledge graph of \<^verbatim>\<open>core/knowledge-graph.js\<close> keeps nodes and edges in two arrays
  held by the storage manager (\<^verbatim>\<open>core/storage-manager.js\<close>) and a per-id cache of nodes
  (\<^verbatim>\<open>nodeMemo\<close>). JavaScript objects become records; a property that may be absent,
  \<^verbatim>\<open>null\<close> or \<^verbatim>\<open>undefined\<close> is an \<open>option\<close>. A thrown \<^verbatim>\<open>Error\<close> is a value
  carrying its message.
\<close>

datatype error = Error string

type_synonym metadata = "(string \<times> string) list"

text \<open>An entity of \<^verbatim>\<open>content.entities\<close> is read only through its \<^verbatim>\<open>name\<close>.\<close>

record content =
  content_summary :: "string option"
  content_text :: "string option"
  content_entities :: "string list option"

record preview =
  preview_title :: string
  preview_summary :: string
  preview_keywords :: "string list"
  preview_source :: string
  preview_date :: int

record node =
  node_id :: string
  title :: string
  content :: content
  url :: "string option"
  timestamp :: int
  source :: string
  metadata :: metadata
  categories :: "string list"
  tags :: "string list"
  preview :: preview
  createdAt :: "int option"
  updatedAt :: "int option"

record edge =
  edge_id :: string
  edge_source :: string
  edge_target :: string
  edge_type :: string
  edge_label :: string
  edge_weight :: rat
  edge_bidirectional :: bool
  edge_metadata :: metadata
  edge_timestamp :: int
  edge_createdAt :: "int option"
  edge_updatedAt :: "int option"

text \<open>The argument objects of \<^verbatim>\<open>addNode\<close>, \<^verbatim>\<open>updateNode\<close> and \<^verbatim>\<open>addEdge\<close>.\<close>

record node_data =
  nd_id :: "string option"
  nd_title :: "string option"
  nd_content :: "content option"
  nd_url :: "string option"
  nd_timestamp :: "int option"
  nd_source :: "string option"
  nd_metadata :: "metadata option"
  nd_categories :: "string list option"
  nd_tags :: "string list option"
  nd_autoConnect :: "string list option"

record node_updates =
  up_title :: "string option"
  up_content :: "content option"
  up_url :: "string option option"
  up_timestamp :: "int option"
  up_source :: "string option"
  up_metadata :: "metadata option"
  up_categories :: "string list option"
  up_tags :: "string list option"
  up_preview :: "preview option"
  up_createdAt :: "int option"

record edge_data =
  ed_id :: "string option"
  ed_source :: "string option"
  ed_target :: "string option"
  ed_type :: "string option"
  ed_label :: "string option"
  ed_weight :: "rat option"
  ed_bidirectional :: "bool option"
  ed_metadata :: "metadata option"
  ed_timestamp :: "int option"

record knowledge_meta =
  meta_nodeCount :: nat
  meta_edgeCount :: nat
  meta_lastUpdated :: int
  meta_version :: nat

text \<open>
  The state: the three storage keys read and written by the graph, the node cache of
  the \<^verbatim>\<open>KnowledgeGraph\<close> object, and the future results of
  \<^verbatim>\<open>Math.random() * 16 | 0\<close>, consumed by \<^verbatim>\<open>uuidv4\<close>. The reading of
  \<^verbatim>\<open>Date.now()\<close> is an argument \<open>now\<close> of every operation that stamps a time.
  Failures of \<^verbatim>\<open>chrome.storage\<close> itself are not modelled.
\<close>

record kg =
  nodes :: "node list"
  edges :: "edge list"
  meta :: "knowledge_meta option"
  nodeMemo :: "string \<rightharpoonup> node"
  rng :: "nat \<Rightarrow> nat"

section \<open>JavaScript helpers\<close>

text \<open>\<^verbatim>\<open>x || d\<close> for a string, a number and an object or array.\<close>

definition or_str :: "string option \<Rightarrow> string \<Rightarrow> string" where
  "or_str x d = (case x of None \<Rightarrow> d | Some s \<Rightarrow> if s = [] then d else s)"

definition or_num :: "int option \<Rightarrow> int \<Rightarrow> int" where
  "or_num x d = (case x of None \<Rightarrow> d | Some n \<Rightarrow> if n = 0 then d else n)"

definition or_obj :: "'a option \<Rightarrow> 'a \<Rightarrow> 'a" where
  "or_obj x d = (case x of None \<Rightarrow> d | Some v \<Rightarrow> v)"

definition truthy_str :: "string option \<Rightarrow> bool" where
  "truthy_str x = (case x of None \<Rightarrow> False | Some s \<Rightarrow> s \<noteq> [])"

text \<open>\<^verbatim>\<open>!x\<close> for a string, and the truth of an object, which is its presence.\<close>

definition falsy_str :: "string option \<Rightarrow> bool" where
  "falsy_str x = (case x of None \<Rightarrow> True | Some s \<Rightarrow> s = [])"

definition truthy_obj :: "'a option \<Rightarrow> bool" where
  "truthy_obj x = (case x of None \<Rightarrow> False | Some v \<Rightarrow> True)"

fun findIndex :: "('a \<Rightarrow> bool) \<Rightarrow> 'a list \<Rightarrow> int" where
  "findIndex P [] = - 1"
| "findIndex P (x # xs) =
     (if P x then 0 else (let i = findIndex P xs in if i < 0 then - 1 else i + 1))"

subsection \<open>Values and plain objects\<close>

text \<open>
  The values that a property path can reach in a stored node. \<open>Function f\<close> is the
  built-in function named \<open>f\<close>.
\<close>

datatype jsval =
  Undefined | Null | Num rat | Str string | Function string | Arr "jsval list"
| Obj "(string \<times> jsval) list"

definition js_truthy :: "jsval \<Rightarrow> bool" where
  "js_truthy v =
     (case v of Undefined \<Rightarrow> False | Null \<Rightarrow> False | Num x \<Rightarrow> x \<noteq> 0 | Str s \<Rightarrow> s \<noteq> []
      | _ \<Rightarrow> True)"

fun digits_value :: "nat \<Rightarrow> string \<Rightarrow> nat option" where
  "digits_value acc [] = Some acc"
| "digits_value acc (c # cs) =
     (let k = (of_char c :: nat)
      in if 48 \<le> k \<and> k \<le> 57 then digits_value (acc * 10 + (k - 48)) cs else None)"

text \<open>A property name that is the canonical decimal text of a natural number.\<close>

definition parse_index :: "string \<Rightarrow> nat option" where
  "parse_index s =
     (if s = [] \<or> (length s > 1 \<and> hd s = CHR ''0'') then None else digits_value 0 s)"

text \<open>An array index is such a number below \<open>2\<^sup>3\<^sup>2 - 1\<close>; an object lists these keys first.\<close>

definition array_index :: "string \<Rightarrow> nat option" where
  "array_index k =
     (case parse_index k of None \<Rightarrow> None | Some i \<Rightarrow> if i < 4294967295 then Some i else None)"

text \<open>
  What every plain object (\<^verbatim>\<open>{}\<close>, or an object read from storage) inherits from
  \<^verbatim>\<open>Object.prototype\<close>: the function \<^verbatim>\<open>Object\<close> as \<^verbatim>\<open>constructor\<close>, the
  functions below under their own names, and the accessor \<^verbatim>\<open>__proto__\<close>, which reads
  as \<^verbatim>\<open>Object.prototype\<close> itself and ignores the assignment of a string or number.
  The text of a built-in function is the one of V8, the engine of the extension.
\<close>

definition object_prototype_methods :: "string list" where
  "object_prototype_methods =
     [''__defineGetter__'', ''__defineSetter__'', ''hasOwnProperty'', ''__lookupGetter__'',
      ''__lookupSetter__'', ''isPrototypeOf'', ''propertyIsEnumerable'', ''toString'',
      ''valueOf'', ''toLocaleString'']"

definition object_prototype_entries :: "(string \<times> jsval) list" where
  "object_prototype_entries =
     (''constructor'', Function ''Object'') # map (\<lambda>k. (k, Function k)) object_prototype_methods"

text \<open>\<^verbatim>\<open>Object.prototype\<close> itself, which inherits nothing: its \<^verbatim>\<open>__proto__\<close> is \<^verbatim>\<open>null\<close>.\<close>

definition object_prototype :: jsval where
  "object_prototype = Obj (object_prototype_entries @ [(''__proto__'', Null)])"

definition function_text :: "string \<Rightarrow> string" where
  "function_text f = ''function '' @ f @ ''() { [native code] }''"

text \<open>
  \<^verbatim>\<open>String(o[k])\<close> for a property \<open>k\<close> that a plain object \<open>o\<close> does not own but
  inherits; \<open>None\<close> when it inherits none and \<^verbatim>\<open>o[k]\<close> is \<^verbatim>\<open>undefined\<close>.
\<close>

definition inherited_text :: "string \<Rightarrow> string option" where
  "inherited_text k =
     (if k = ''__proto__'' then Some ''[object Object]''
      else (case map_of object_prototype_entries k of
              Some (Function f) \<Rightarrow> Some (function_text f)
            | _ \<Rightarrow> None))"

text \<open>
  A plain object used as a table of counters,
  \<^verbatim>\<open>counts[k] = (counts[k] || 0) + 1\<close>. A value is a number, or the string that
  \<^verbatim>\<open>+ 1\<close> makes of an inherited property or of an earlier string. The own keys are
  kept in the order in which the object lists them: array indices in ascending order,
  then the other keys in the order of their creation.
\<close>

datatype counter = Count nat | Text string

type_synonym counters = "(string \<times> counter) list"

fun place_key :: "string \<Rightarrow> counter \<Rightarrow> counters \<Rightarrow> counters" where
  "place_key k v [] = [(k, v)]"
| "place_key k v ((k', v') # rest) =
     (if (case array_index k of
            None \<Rightarrow> False
          | Some i \<Rightarrow> (case array_index k' of None \<Rightarrow> True | Some j \<Rightarrow> i < j))
      then (k, v) # (k', v') # rest
      else (k', v') # place_key k v rest)"

definition set_own :: "string \<Rightarrow> counter \<Rightarrow> counters \<Rightarrow> counters" where
  "set_own k v t =
     (if k \<in> set (map fst t) then map (\<lambda>(k', v'). if k' = k then (k', v) else (k', v')) t
      else place_key k v t)"

definition count_key :: "string \<Rightarrow> counters \<Rightarrow> counters" where
  "count_key k t =
     (case map_of t k of
        Some (Count c) \<Rightarrow> set_own k (Count (c + 1)) t
      | Some (Text s) \<Rightarrow> set_own k (if s = [] then Count 1 else Text (s @ ''1'')) t
      | None \<Rightarrow>
         (case inherited_text k of
            None \<Rightarrow> set_own k (Count 1) t
          | Some s \<Rightarrow> if k = ''__proto__'' then t else set_own k (Text (s @ ''1'')) t))"

subsection \<open>\<^verbatim>\<open>utils/uuid.js\<close>: \<^verbatim>\<open>v4\<close>\<close>

definition hex_digit :: "nat \<Rightarrow> char" where
  "hex_digit v = ''0123456789abcdef'' ! (v mod 16)"

fun v4_replace :: "string \<Rightarrow> (nat \<Rightarrow> nat) \<Rightarrow> string \<times> (nat \<Rightarrow> nat)" where
  "v4_replace [] g = ([], g)"
| "v4_replace (c # cs) g =
     (if c = CHR ''x'' \<or> c = CHR ''y'' then
        (let r = g 0 mod 16;
             v = (if c = CHR ''x'' then r else (r AND 3) OR 8);
             (rest, g') = v4_replace cs (\<lambda>i. g (Suc i))
         in (hex_digit v # rest, g'))
      else
        (let (rest, g') = v4_replace cs g in (c # rest, g')))"

definition uuidv4 :: "kg \<Rightarrow> string \<times> kg" where
  "uuidv4 st =
     (let (u, g') = v4_replace ''xxxxxxxx-xxxx-4xxx-yxxx-xxxxxxxxxxxx'' (rng st)
      in (u, st\<lparr>rng := g'\<rparr>))"

section \<open>Storage manager\<close>

definition updateKnowledgeMeta ::
  "nat option \<Rightarrow> nat option \<Rightarrow> int \<Rightarrow> kg \<Rightarrow> kg" where
  "updateKnowledgeMeta nodeCount edgeCount now st =
     (let m = or_obj (meta st)
                \<lparr>meta_nodeCount = 0, meta_edgeCount = 0, meta_lastUpdated = now, meta_version = 1\<rparr>;
          updatedMeta = m\<lparr>meta_nodeCount := or_obj nodeCount (meta_nodeCount m),
                          meta_edgeCount := or_obj edgeCount (meta_edgeCount m),
                          meta_lastUpdated := now\<rparr>
      in st\<lparr>meta := Some updatedMeta\<rparr>)"

text \<open>
  \<^verbatim>\<open>{...nodes[i], ...node, updatedAt: Date.now()}\<close>: every property of the new object
  wins; only \<^verbatim>\<open>createdAt\<close> can be missing from it and is then kept from the old one.
\<close>

definition merge_node :: "node \<Rightarrow> node \<Rightarrow> int \<Rightarrow> node" where
  "merge_node old new now =
     new\<lparr>createdAt := (case createdAt new of Some c \<Rightarrow> Some c | None \<Rightarrow> createdAt old),
         updatedAt := Some now\<rparr>"

definition merge_edge :: "edge \<Rightarrow> edge \<Rightarrow> int \<Rightarrow> edge" where
  "merge_edge old new now =
     new\<lparr>edge_createdAt := (case edge_createdAt new of Some c \<Rightarrow> Some c
                              | None \<Rightarrow> edge_createdAt old),
         edge_updatedAt := Some now\<rparr>"

definition saveKnowledgeNode :: "node \<Rightarrow> int \<Rightarrow> kg \<Rightarrow> (error + bool) \<times> kg" where
  "saveKnowledgeNode n now st =
     (if node_id n = [] then (Inl (Error ''Invalid knowledge node''), st)
      else
        (let ns = nodes st;
             existingIndex = findIndex (\<lambda>m. node_id m = node_id n) ns
         in if existingIndex \<ge> 0 then
              (Inr True,
               st\<lparr>nodes := ns[nat existingIndex := merge_node (ns ! nat existingIndex) n now]\<rparr>)
            else
              (let ns' = ns @ [n\<lparr>createdAt := Some now, updatedAt := Some now\<rparr>];
                   st1 = updateKnowledgeMeta (Some (length ns')) None now st
               in (Inr True, st1\<lparr>nodes := ns'\<rparr>))))"

definition saveKnowledgeEdge :: "edge \<Rightarrow> int \<Rightarrow> kg \<Rightarrow> (error + bool) \<times> kg" where
  "saveKnowledgeEdge e now st =
     (if edge_id e = [] \<or> edge_source e = [] \<or> edge_target e = []
      then (Inl (Error ''Invalid knowledge edge''), st)
      else
        (let es = edges st;
             existingIndex = findIndex (\<lambda>d. edge_id d = edge_id e) es
         in if existingIndex \<ge> 0 then
              (Inr True,
               st\<lparr>edges := es[nat existingIndex := merge_edge (es ! nat existingIndex) e now]\<rparr>)
            else
              (let es' = es @ [e\<lparr>edge_createdAt := Some now, edge_updatedAt := Some now\<rparr>];
                   st1 = updateKnowledgeMeta None (Some (length es')) now st
               in (Inr True, st1\<lparr>edges := es'\<rparr>))))"

definition deleteEdgesForNode :: "string \<Rightarrow> int \<Rightarrow> kg \<Rightarrow> bool \<times> kg" where
  "deleteEdgesForNode nodeId now st =
     (let es = edges st;
          filteredEdges = filter (\<lambda>e. edge_source e \<noteq> nodeId \<and> edge_target e \<noteq> nodeId) es
      in if length filteredEdges = length es then (False, st)
         else (True,
               updateKnowledgeMeta None (Some (length filteredEdges)) now
                 (st\<lparr>edges := filteredEdges\<rparr>)))"

definition deleteKnowledgeNode :: "string \<Rightarrow> int \<Rightarrow> kg \<Rightarrow> bool \<times> kg" where
  "deleteKnowledgeNode nodeId now st =
     (let ns = nodes st;
          filteredNodes = filter (\<lambda>n. node_id n \<noteq> nodeId) ns
      in if length filteredNodes = length ns then (False, st)
         else
           (let st1 = st\<lparr>nodes := filteredNodes\<rparr>;
                st2 = updateKnowledgeMeta (Some (length filteredNodes)) None now st1;
                (r, st3) = deleteEdgesForNode nodeId now st2
            in (True, st3)))"

definition deleteKnowledgeEdge :: "string \<Rightarrow> int \<Rightarrow> kg \<Rightarrow> bool \<times> kg" where
  "deleteKnowledgeEdge edgeId now st =
     (let es = edges st;
          filteredEdges = filter (\<lambda>e. edge_id e \<noteq> edgeId) es
      in if length filteredEdges = length es then (False, st)
         else (True,
               updateKnowledgeMeta None (Some (length filteredEdges)) now
                 (st\<lparr>edges := filteredEdges\<rparr>)))"

section \<open>Knowledge graph: node and edge lifecycle\<close>

text \<open>
  \<^verbatim>\<open>generatePreview\<close> reads \<^verbatim>\<open>title\<close>, \<^verbatim>\<open>content\<close>, \<^verbatim>\<open>source\<close> and
  \<^verbatim>\<open>timestamp\<close> of its argument, which is the caller's \<^verbatim>\<open>nodeData\<close> in
  \<^verbatim>\<open>addNode\<close> and the merged node in \<^verbatim>\<open>updateNode\<close>.
\<close>

definition generatePreview ::
  "string option \<Rightarrow> content option \<Rightarrow> string option \<Rightarrow> int option \<Rightarrow> int \<Rightarrow> preview" where
  "generatePreview ttl cnt src ts now =
     \<lparr>preview_title = or_str ttl ''Untitled'',
      preview_summary =
        (case cnt of
           None \<Rightarrow> ''No preview available''
         | Some c \<Rightarrow>
            if truthy_str (content_summary c) then the (content_summary c)
            else (case content_text c of
                    Some t \<Rightarrow> take 150 t @ (if length t > 150 then ''...'' else [])
                  | None \<Rightarrow> ''No preview available'')),
      preview_keywords =
        (case cnt of
           None \<Rightarrow> []
         | Some c \<Rightarrow> (case content_entities c of None \<Rightarrow> [] | Some es \<Rightarrow> take 5 es)),
      preview_source = or_str src ''manual'',
      preview_date = or_num ts now\<rparr>"

definition node_preview :: "node \<Rightarrow> int \<Rightarrow> preview" where
  "node_preview n now =
     generatePreview (Some (title n)) (Some (content n)) (Some (source n)) (Some (timestamp n)) now"

definition getNode :: "string \<Rightarrow> kg \<Rightarrow> (error + node option) \<times> kg" where
  "getNode nodeId st =
     (if nodeId = [] then (Inl (Error ''Node ID is required''), st)
      else (case nodeMemo st nodeId of
              Some n \<Rightarrow> (Inr (Some n), st)
            | None \<Rightarrow>
               (case find (\<lambda>n. node_id n = nodeId) (nodes st) of
                  None \<Rightarrow> (Inr None, st)
                | Some n \<Rightarrow> (Inr (Some n), st\<lparr>nodeMemo := (nodeMemo st)(nodeId \<mapsto> n)\<rparr>))))"

definition addEdge :: "edge_data option \<Rightarrow> int \<Rightarrow> kg \<Rightarrow> (error + string) \<times> kg" where
  "addEdge edgeData now st =
     (case edgeData of
        None \<Rightarrow> (Inl (Error ''Edge must have source and target node IDs''), st)
      | Some d \<Rightarrow>
         if falsy_str (ed_source d) \<or> falsy_str (ed_target d)
         then (Inl (Error ''Edge must have source and target node IDs''), st)
         else
           (let src = the (ed_source d); tgt = the (ed_target d) in
            case getNode src st of
              (Inl e, st1) \<Rightarrow> (Inl e, st1)
            | (Inr sourceNode, st1) \<Rightarrow>
               (case getNode tgt st1 of
                  (Inl e, st2) \<Rightarrow> (Inl e, st2)
                | (Inr targetNode, st2) \<Rightarrow>
                   if sourceNode = None
                   then (Inl (Error (''Source node not found: '' @ src)), st2)
                   else if targetNode = None
                   then (Inl (Error (''Target node not found: '' @ tgt)), st2)
                   else
                     (let (edgeId, st3) =
                            (if truthy_str (ed_id d) then (the (ed_id d), st2)
                             else (let (u, st') = uuidv4 st2
                                   in (src @ ''-'' @ tgt @ ''-'' @ take 8 u, st')));
                          e = \<lparr>edge_id = edgeId, edge_source = src, edge_target = tgt,
                               edge_type = or_str (ed_type d) ''related'',
                               edge_label = or_str (ed_label d) '''',
                               edge_weight = or_obj (ed_weight d) 1,
                               edge_bidirectional = or_obj (ed_bidirectional d) False,
                               edge_metadata = or_obj (ed_metadata d) [],
                               edge_timestamp = or_num (ed_timestamp d) now,
                               edge_createdAt = None, edge_updatedAt = None\<rparr>
                      in case saveKnowledgeEdge e now st3 of
                           (Inl err, st4) \<Rightarrow> (Inl err, st4)
                         | (Inr ok, st4) \<Rightarrow> (Inr edgeId, st4)))))"

fun autoConnect :: "string \<Rightarrow> string list \<Rightarrow> int \<Rightarrow> kg \<Rightarrow> (error + unit) \<times> kg" where
  "autoConnect nodeId [] now st = (Inr (), st)"
| "autoConnect nodeId (targetId # rest) now st =
     (case addEdge (Some \<lparr>ed_id = None, ed_source = Some nodeId, ed_target = Some targetId,
                          ed_type = Some ''auto-connected'', ed_label = None,
                          ed_weight = Some (1 / 2), ed_bidirectional = None,
                          ed_metadata = None, ed_timestamp = None\<rparr>) now st of
        (Inl e, st1) \<Rightarrow> (Inl e, st1)
      | (Inr edgeId, st1) \<Rightarrow> autoConnect nodeId rest now st1)"

definition new_node :: "node_data \<Rightarrow> string \<Rightarrow> int \<Rightarrow> node" where
  "new_node d nodeId now =
     \<lparr>node_id = nodeId,
      title = or_str (nd_title d) ''Untitled'',
      content = or_obj (nd_content d)
                  \<lparr>content_summary = None, content_text = None, content_entities = None\<rparr>,
      url = (if truthy_str (nd_url d) then nd_url d else None),
      timestamp = or_num (nd_timestamp d) now,
      source = or_str (nd_source d) ''manual'',
      metadata = or_obj (nd_metadata d) [],
      categories = or_obj (nd_categories d) [],
      tags = or_obj (nd_tags d) [],
      preview = generatePreview (nd_title d) (nd_content d) (nd_source d) (nd_timestamp d) now,
      createdAt = None, updatedAt = None\<rparr>"

text \<open>\<^verbatim>\<open>nodeData.id || uuidv4()\<close>\<close>

definition assign_id :: "node_data \<Rightarrow> kg \<Rightarrow> string \<times> kg" where
  "assign_id d st = (if truthy_str (nd_id d) then (the (nd_id d), st) else uuidv4 st)"

definition addNode :: "node_data option \<Rightarrow> int \<Rightarrow> kg \<Rightarrow> (error + string) \<times> kg" where
  "addNode nodeData now st =
     (case nodeData of
        None \<Rightarrow> (Inl (Error ''Node data is required''), st)
      | Some d \<Rightarrow>
         (let (nodeId, st0) = assign_id d st;
              n = new_node d nodeId now
          in case saveKnowledgeNode n now st0 of
               (Inl e, st1) \<Rightarrow> (Inl e, st1)
             | (Inr ok, st1) \<Rightarrow>
                (let st2 = st1\<lparr>nodeMemo := (nodeMemo st1)(nodeId \<mapsto> n)\<rparr> in
                 case nd_autoConnect d of
                   None \<Rightarrow> (Inr nodeId, st2)
                 | Some targets \<Rightarrow>
                    (case autoConnect nodeId targets now st2 of
                       (Inl e, st3) \<Rightarrow> (Inl e, st3)
                     | (Inr u, st3) \<Rightarrow> (Inr nodeId, st3)))))"

text \<open>\<^verbatim>\<open>{...node, ...updates, id: nodeId, updatedAt: Date.now()}\<close>\<close>

definition apply_updates :: "node \<Rightarrow> node_updates \<Rightarrow> string \<Rightarrow> int \<Rightarrow> node" where
  "apply_updates n u nodeId now =
     \<lparr>node_id = nodeId,
      title = or_obj (up_title u) (title n),
      content = or_obj (up_content u) (content n),
      url = or_obj (up_url u) (url n),
      timestamp = or_obj (up_timestamp u) (timestamp n),
      source = or_obj (up_source u) (source n),
      metadata = or_obj (up_metadata u) (metadata n),
      categories = or_obj (up_categories u) (categories n),
      tags = or_obj (up_tags u) (tags n),
      preview = or_obj (up_preview u) (preview n),
      createdAt = (case up_createdAt u of Some c \<Rightarrow> Some c | None \<Rightarrow> createdAt n),
      updatedAt = Some now\<rparr>"

definition updateNode ::
  "string \<Rightarrow> node_updates \<Rightarrow> int \<Rightarrow> kg \<Rightarrow> (error + node) \<times> kg" where
  "updateNode nodeId updates now st =
     (if nodeId = [] then (Inl (Error ''Node ID is required''), st)
      else
        (case getNode nodeId st of
           (Inl e, st1) \<Rightarrow> (Inl e, st1)
         | (Inr None, st1) \<Rightarrow> (Inl (Error (''Node not found: '' @ nodeId)), st1)
         | (Inr (Some n), st1) \<Rightarrow>
            (let merged = apply_updates n updates nodeId now;
                 updatedNode =
                   (if truthy_obj (up_content updates) \<or> truthy_str (up_title updates)
                    then merged\<lparr>preview := node_preview merged now\<rparr>
                    else merged)
             in case saveKnowledgeNode updatedNode now st1 of
                  (Inl e, st2) \<Rightarrow> (Inl e, st2)
                | (Inr ok, st2) \<Rightarrow>
                   (Inr updatedNode, st2\<lparr>nodeMemo := (nodeMemo st2)(nodeId \<mapsto> updatedNode)\<rparr>))))"

definition deleteNode :: "string \<Rightarrow> int \<Rightarrow> kg \<Rightarrow> (error + bool) \<times> kg" where
  "deleteNode nodeId now st =
     (if nodeId = [] then (Inl (Error ''Node ID is required''), st)
      else (let (result, st1) = deleteKnowledgeNode nodeId now st
            in (Inr result, st1\<lparr>nodeMemo := (nodeMemo st1)(nodeId := None)\<rparr>)))"

definition getEdge :: "string \<Rightarrow> kg \<Rightarrow> error + edge option" where
  "getEdge edgeId st =
     (if edgeId = [] then Inl (Error ''Edge ID is required'')
      else Inr (find (\<lambda>e. edge_id e = edgeId) (edges st)))"

definition deleteEdge :: "string \<Rightarrow> int \<Rightarrow> kg \<Rightarrow> (error + bool) \<times> kg" where
  "deleteEdge edgeId now st =
     (if edgeId = [] then (Inl (Error ''Edge ID is required''), st)
      else (let (result, st1) = deleteKnowledgeEdge edgeId now st in (Inr result, st1)))"

section \<open>Statistics\<close>

text \<open>
  The \<^verbatim>\<open>Map\<close> of connection counts
  (\<^verbatim>\<open>m.set(k, (m.get(k) || 0) + 1)\<close>), in the order of insertion. A \<^verbatim>\<open>Map\<close> has
  no inherited keys.
\<close>

fun increment :: "string \<Rightarrow> (string \<times> nat) list \<Rightarrow> (string \<times> nat) list" where
  "increment k [] = [(k, 1)]"
| "increment k ((k', c) # rest) =
     (if k = k' then (k', c + 1) # rest else (k', c) # increment k rest)"

definition or_empty :: "string \<Rightarrow> string \<Rightarrow> string" where
  "or_empty s d = (if s = [] then d else s)"

record connection_stats =
  cs_min :: nat
  cs_max :: nat
  cs_avg :: rat
  cs_isolated :: nat

text \<open>
  The result of \<^verbatim>\<open>getStatistics\<close> without \<^verbatim>\<open>timeDistribution\<close> and
  \<^verbatim>\<open>lastUpdated\<close>, which depend on the host's calendar and clock. The three
  distributions are plain objects. \<open>cs_avg\<close> is the exact quotient, which the code rounds to
  a double.
\<close>

record statistics =
  nodeCount :: nat
  edgeCount :: nat
  categoriesDistribution :: counters
  sourceDistribution :: counters
  edgeTypeDistribution :: counters
  connectionStats :: connection_stats

definition categoriesCounts :: "node list \<Rightarrow> counters" where
  "categoriesCounts ns = fold (\<lambda>n acc. fold count_key (categories n) acc) ns []"

definition sourceCounts :: "node list \<Rightarrow> counters" where
  "sourceCounts ns = fold (\<lambda>n acc. count_key (or_empty (source n) ''unknown'') acc) ns []"

definition edgeTypeCounts :: "edge list \<Rightarrow> counters" where
  "edgeTypeCounts es = fold (\<lambda>e acc. count_key (or_empty (edge_type e) ''unknown'') acc) es []"

definition connectionCounts :: "edge list \<Rightarrow> (string \<times> nat) list" where
  "connectionCounts es =
     fold (\<lambda>e acc. increment (edge_target e) (increment (edge_source e) acc)) es []"

definition getStatistics :: "kg \<Rightarrow> statistics" where
  "getStatistics st =
     (let ns = nodes st; es = edges st;
          cc = connectionCounts es;
          isolatedCount = length (filter (\<lambda>n. node_id n \<notin> set (map fst cc)) ns);
          counts = map snd cc;
          stats =
            (if length cc > 0 then
               \<lparr>cs_min = fold min counts (hd counts), cs_max = fold max counts (hd counts),
                cs_avg = of_nat (sum_list counts) / of_nat (length counts),
                cs_isolated = isolatedCount\<rparr>
             else if length ns > 0 then
               \<lparr>cs_min = 0, cs_max = 0, cs_avg = 0, cs_isolated = length ns\<rparr>
             else
               \<lparr>cs_min = 0, cs_max = 0, cs_avg = 0, cs_isolated = 0\<rparr>)
      in \<lparr>nodeCount = length ns, edgeCount = length es,
          categoriesDistribution = categoriesCounts ns,
          sourceDistribution = sourceCounts ns,
          edgeTypeDistribution = edgeTypeCounts es,
          connectionStats = stats\<rparr>)"

section \<open>Search\<close>

subsection \<open>Strings\<close>

text \<open>
  A string is the list of its characters, each a code point up to U+00FF. On that range
  the white space of \<^verbatim>\<open>trim\<close> and of \<^verbatim>\<open>\s\<close> is tab, line feed, vertical tab, form
  feed, carriage return, space and the no-break space U+00A0, and
  \<^verbatim>\<open>toLowerCase\<close> maps A to Z and U+00C0 to U+00DE, the sign U+00D7 apart, 32 places up.
\<close>

definition is_space :: "char \<Rightarrow> bool" where
  "is_space c =
     (c \<in> set [CHR '' '', CHR 0x09, CHR 0x0A, CHR 0x0B, CHR 0x0C, CHR 0x0D, CHR 0xA0])"

definition trim :: "string \<Rightarrow> string" where
  "trim s = rev (dropWhile is_space (rev (dropWhile is_space s)))"

definition lower_char :: "char \<Rightarrow> char" where
  "lower_char c =
     (let k = (of_char c :: nat)
      in if (65 \<le> k \<and> k \<le> 90) \<or> (192 \<le> k \<and> k \<le> 222 \<and> k \<noteq> 215) then char_of (k + 32)
         else c)"

definition toLowerCase :: "string \<Rightarrow> string" where
  "toLowerCase s = map lower_char s"

fun includes_str :: "string \<Rightarrow> string \<Rightarrow> bool" where
  "includes_str [] t = (t = [])"
| "includes_str (c # cs) t = (take (length t) (c # cs) = t \<or> includes_str cs t)"

text \<open>\<^verbatim>\<open>s.split(/\s+/)\<close>; the first argument is the piece read so far, reversed.\<close>

function split_ws :: "string \<Rightarrow> string \<Rightarrow> string list" where
  "split_ws cur [] = [rev cur]"
| "split_ws cur (c # cs) =
     (if is_space c then rev cur # split_ws [] (dropWhile is_space cs)
      else split_ws (c # cur) cs)"
  by pat_completeness auto
termination
  by (relation "measure (\<lambda>(cur, s). length s)")
     (auto simp: le_imp_less_Suc length_dropWhile_le)

subsection \<open>Scoring\<close>

record match_details =
  md_title :: "nat option"
  md_summary :: "nat option"
  md_text :: "nat option"
  md_entities :: "nat option"
  md_categories :: "nat option"
  md_tags :: "nat option"
  md_url :: "nat option"

record search_options =
  so_limit :: "int option"
  so_offset :: "int option"
  so_sortBy :: "string option"
  so_order :: "string option"
  so_searchIn :: "string list option"

text \<open>
  \<^verbatim>\<open>{limit: options.limit || 20, ..., ...options}\<close>: the spread at the end writes every
  property that \<^verbatim>\<open>options\<close> has over the default, so a default is used only for a
  property that is absent.
\<close>

definition opt_limit :: "search_options \<Rightarrow> int" where
  "opt_limit options = or_obj (so_limit options) (or_num (so_limit options) 20)"

definition opt_offset :: "search_options \<Rightarrow> int" where
  "opt_offset options = or_obj (so_offset options) (or_num (so_offset options) 0)"

definition opt_sortBy :: "search_options \<Rightarrow> string" where
  "opt_sortBy options = or_obj (so_sortBy options) (or_str (so_sortBy options) ''relevance'')"

definition opt_order :: "search_options \<Rightarrow> string" where
  "opt_order options = or_obj (so_order options) (or_str (so_order options) ''desc'')"

definition opt_searchIn :: "search_options \<Rightarrow> string list" where
  "opt_searchIn options =
     or_obj (so_searchIn options)
       (or_obj (so_searchIn options) [''title'', ''content'', ''categories'', ''tags''])"

text \<open>\<^verbatim>\<open>queryTerms.filter(term => lower.includes(term)).length\<close>\<close>

definition term_matches :: "string list \<Rightarrow> string \<Rightarrow> nat" where
  "term_matches queryTerms s =
     length (filter (\<lambda>t. includes_str (toLowerCase s) t) queryTerms)"

text \<open>\<^verbatim>\<open>items.filter(x => queryTerms.some(term => x.toLowerCase().includes(term))).length\<close>\<close>

definition item_matches :: "string list \<Rightarrow> string list \<Rightarrow> nat" where
  "item_matches queryTerms items =
     length (filter (\<lambda>x. \<exists>t \<in> set queryTerms. includes_str (toLowerCase x) t) items)"

definition some_if :: "nat \<Rightarrow> nat option" where
  "some_if k = (if k > 0 then Some k else None)"

definition title_score :: "string list \<Rightarrow> string list \<Rightarrow> node \<Rightarrow> nat" where
  "title_score searchIn queryTerms n =
     (if ''title'' \<in> set searchIn \<and> title n \<noteq> [] then term_matches queryTerms (title n) * 3
      else 0)"

definition summary_score :: "string list \<Rightarrow> string list \<Rightarrow> node \<Rightarrow> nat" where
  "summary_score searchIn queryTerms n =
     (if ''content'' \<in> set searchIn \<and> truthy_str (content_summary (content n))
      then term_matches queryTerms (the (content_summary (content n))) * 2 else 0)"

definition text_match :: "string list \<Rightarrow> string list \<Rightarrow> node \<Rightarrow> nat" where
  "text_match searchIn queryTerms n =
     (if ''content'' \<in> set searchIn \<and> truthy_str (content_text (content n))
      then term_matches queryTerms (the (content_text (content n))) else 0)"

definition entity_match :: "string list \<Rightarrow> string list \<Rightarrow> node \<Rightarrow> nat" where
  "entity_match searchIn queryTerms n =
     (if ''content'' \<in> set searchIn
      then (case content_entities (content n) of
              None \<Rightarrow> 0 | Some es \<Rightarrow> item_matches queryTerms es)
      else 0)"

definition category_match :: "string list \<Rightarrow> string list \<Rightarrow> node \<Rightarrow> nat" where
  "category_match searchIn queryTerms n =
     (if ''categories'' \<in> set searchIn then item_matches queryTerms (categories n) else 0)"

definition tag_match :: "string list \<Rightarrow> string list \<Rightarrow> node \<Rightarrow> nat" where
  "tag_match searchIn queryTerms n =
     (if ''tags'' \<in> set searchIn then item_matches queryTerms (tags n) else 0)"

definition url_match :: "string list \<Rightarrow> string list \<Rightarrow> node \<Rightarrow> nat" where
  "url_match searchIn queryTerms n =
     (if ''url'' \<in> set searchIn \<and> truthy_str (url n)
      then term_matches queryTerms (the (url n)) else 0)"

definition node_score :: "string list \<Rightarrow> string list \<Rightarrow> node \<Rightarrow> rat" where
  "node_score searchIn queryTerms n =
     of_nat (title_score searchIn queryTerms n)
     + of_nat (summary_score searchIn queryTerms n)
     + of_nat (text_match searchIn queryTerms n)
     + of_nat (entity_match searchIn queryTerms n) * (3 / 2)
     + of_nat (category_match searchIn queryTerms n) * 2
     + of_nat (tag_match searchIn queryTerms n) * (5 / 2)
     + of_nat (url_match searchIn queryTerms n)"

definition node_matchDetails :: "string list \<Rightarrow> string list \<Rightarrow> node \<Rightarrow> match_details" where
  "node_matchDetails searchIn queryTerms n =
     \<lparr>md_title = some_if (title_score searchIn queryTerms n),
      md_summary = some_if (summary_score searchIn queryTerms n),
      md_text = some_if (text_match searchIn queryTerms n),
      md_entities = some_if (entity_match searchIn queryTerms n),
      md_categories = some_if (category_match searchIn queryTerms n),
      md_tags = some_if (tag_match searchIn queryTerms n),
      md_url = some_if (url_match searchIn queryTerms n)\<rparr>"

subsection \<open>Sorting and property access\<close>

text \<open>
  \<^verbatim>\<open>Array.prototype.sort\<close> with a comparator is stable; it is modelled as insertion
  sort, which gives the one stable order whenever the comparator is a consistent ordering
  (for an inconsistent comparator the language leaves the order to the engine).
  A comparator result \<^verbatim>\<open>NaN\<close> counts as \<open>0\<close>.
\<close>

fun insort_cmp :: "('a \<Rightarrow> 'a \<Rightarrow> rat) \<Rightarrow> 'a \<Rightarrow> 'a list \<Rightarrow> 'a list" where
  "insort_cmp cmp x [] = [x]"
| "insort_cmp cmp x (y # ys) =
     (if cmp x y \<le> 0 then x # y # ys else y # insort_cmp cmp x ys)"

definition sort_cmp :: "('a \<Rightarrow> 'a \<Rightarrow> rat) \<Rightarrow> 'a list \<Rightarrow> 'a list" where
  "sort_cmp cmp xs = foldr (insort_cmp cmp) xs []"

text \<open>\<^verbatim>\<open>xs.slice(start, end)\<close>\<close>

definition js_slice :: "'a list \<Rightarrow> int \<Rightarrow> int \<Rightarrow> 'a list" where
  "js_slice xs start fin =
     (let len = int (length xs);
          k = (if start < 0 then max (len + start) 0 else min start len);
          final = (if fin < 0 then max (len + fin) 0 else min fin len)
      in take (nat (final - k)) (drop (nat k) xs))"

definition opt_js :: "('a \<Rightarrow> jsval) \<Rightarrow> string \<Rightarrow> 'a option \<Rightarrow> (string \<times> jsval) list" where
  "opt_js f k x = (case x of None \<Rightarrow> [] | Some v \<Rightarrow> [(k, f v)])"

definition content_js :: "content \<Rightarrow> jsval" where
  "content_js c =
     Obj (opt_js Str ''summary'' (content_summary c) @ opt_js Str ''text'' (content_text c)
          @ opt_js (\<lambda>es. Arr (map (\<lambda>e. Obj [(''name'', Str e)]) es)) ''entities''
              (content_entities c))"

definition preview_js :: "preview \<Rightarrow> jsval" where
  "preview_js p =
     Obj [(''title'', Str (preview_title p)), (''summary'', Str (preview_summary p)),
          (''keywords'', Arr (map Str (preview_keywords p))),
          (''source'', Str (preview_source p)), (''date'', Num (of_int (preview_date p)))]"

text \<open>A stored node as the object that the storage manager returns.\<close>

definition node_js :: "node \<Rightarrow> jsval" where
  "node_js n =
     Obj ([(''id'', Str (node_id n)), (''title'', Str (title n)),
           (''content'', content_js (content n)),
           (''url'', (case url n of None \<Rightarrow> Null | Some u \<Rightarrow> Str u)),
           (''timestamp'', Num (of_int (timestamp n))), (''source'', Str (source n)),
           (''metadata'', Obj (map (\<lambda>(k, v). (k, Str v)) (metadata n))),
           (''categories'', Arr (map Str (categories n))), (''tags'', Arr (map Str (tags n))),
           (''preview'', preview_js (preview n))]
          @ opt_js (\<lambda>t. Num (of_int t)) ''createdAt'' (createdAt n)
          @ opt_js (\<lambda>t. Num (of_int t)) ''updatedAt'' (updatedAt n))"

text \<open>
  What the engine supplies: \<^verbatim>\<open>String.prototype.localeCompare\<close>, the conversion of
  a string, function, array or object to a number (\<open>None\<close> is \<^verbatim>\<open>NaN\<close>), and what
  an array, a string, a number or a function inherits under a property name
  (\<^verbatim>\<open>undefined\<close> when nothing).
\<close>

record host =
  localeCompare :: "string \<Rightarrow> string \<Rightarrow> rat"
  toNumber :: "jsval \<Rightarrow> rat option"
  inherited :: "jsval \<Rightarrow> string \<Rightarrow> jsval"

text \<open>
  \<^verbatim>\<open>current[part]\<close>: an own property, an index or \<^verbatim>\<open>length\<close> of an array or a
  string, or else what the value inherits; a plain object inherits from
  \<^verbatim>\<open>Object.prototype\<close>.
\<close>

definition js_get :: "host \<Rightarrow> jsval \<Rightarrow> string \<Rightarrow> jsval" where
  "js_get h v part =
     (case v of
        Obj ps \<Rightarrow>
         (case map_of ps part of
            Some w \<Rightarrow> w
          | None \<Rightarrow>
             if part = ''__proto__'' then object_prototype
             else (case map_of object_prototype_entries part of
                     Some w \<Rightarrow> w | None \<Rightarrow> Undefined))
      | Arr xs \<Rightarrow>
         (if part = ''length'' then Num (of_nat (length xs))
          else (case parse_index part of
                  Some i \<Rightarrow> if i < length xs then xs ! i else inherited h v part
                | None \<Rightarrow> inherited h v part))
      | Str s \<Rightarrow>
         (if part = ''length'' then Num (of_nat (length s))
          else (case parse_index part of
                  Some i \<Rightarrow> if i < length s then Str [s ! i] else inherited h v part
                | None \<Rightarrow> inherited h v part))
      | Undefined \<Rightarrow> Undefined
      | Null \<Rightarrow> Undefined
      | _ \<Rightarrow> inherited h v part)"

fun split_on :: "char \<Rightarrow> string \<Rightarrow> string \<Rightarrow> string list" where
  "split_on sep cur [] = [rev cur]"
| "split_on sep cur (c # cs) =
     (if c = sep then rev cur # split_on sep [] cs else split_on sep (c # cur) cs)"

fun walk_parts :: "host \<Rightarrow> jsval \<Rightarrow> string list \<Rightarrow> jsval" where
  "walk_parts h current [] = current"
| "walk_parts h current (part # rest) =
     (if current = Null \<or> current = Undefined then Undefined
      else walk_parts h (js_get h current part) rest)"

definition getNestedProperty :: "host \<Rightarrow> jsval \<Rightarrow> string \<Rightarrow> jsval" where
  "getNestedProperty h obj path = walk_parts h obj (split_on CHR ''.'' [] path)"

definition to_number :: "host \<Rightarrow> jsval \<Rightarrow> rat option" where
  "to_number h v =
     (case v of Num x \<Rightarrow> Some x | Null \<Rightarrow> Some 0 | Undefined \<Rightarrow> None | _ \<Rightarrow> toNumber h v)"

subsection \<open>\<^verbatim>\<open>search\<close>\<close>

record scored =
  sc_node :: node
  sc_score :: rat
  sc_matchDetails :: match_details

text \<open>
  The elements of the array \<^verbatim>\<open>results\<close>: the stored nodes themselves for a blank
  query, and \<^verbatim>\<open>{node, score, matchDetails}\<close> objects otherwise. A stored node has no
  property \<^verbatim>\<open>node\<close>, \<^verbatim>\<open>score\<close> or \<^verbatim>\<open>matchDetails\<close>.
\<close>

datatype item = Raw node | Scored scored

fun item_node :: "item \<Rightarrow> node option" where
  "item_node (Raw n) = None"
| "item_node (Scored r) = Some (sc_node r)"

fun item_score :: "item \<Rightarrow> rat option" where
  "item_score (Raw n) = None"
| "item_score (Scored r) = Some (sc_score r)"

fun item_matchDetails :: "item \<Rightarrow> match_details option" where
  "item_matchDetails (Raw n) = None"
| "item_matchDetails (Scored r) = Some (sc_matchDetails r)"

text \<open>
  An element of the returned \<^verbatim>\<open>results\<close>:
  \<^verbatim>\<open>{...result.node, score: result.score, matchDetails: result.matchDetails}\<close>.
  \<open>hit_node\<close> holds the node whose properties were copied; it is \<open>None\<close> when
  \<^verbatim>\<open>result.node\<close> is \<^verbatim>\<open>undefined\<close> and the spread copies nothing.
\<close>

record hit =
  hit_node :: "node option"
  hit_score :: "rat option"
  hit_matchDetails :: "match_details option"

definition format_hit :: "item \<Rightarrow> hit" where
  "format_hit r =
     \<lparr>hit_node = item_node r, hit_score = item_score r,
      hit_matchDetails = item_matchDetails r\<rparr>"

record search_result =
  sr_total :: nat
  sr_offset :: int
  sr_limit :: int
  sr_results :: "hit list"

definition sort_value :: "host \<Rightarrow> item \<Rightarrow> string \<Rightarrow> jsval" where
  "sort_value h r sortBy =
     (let v = getNestedProperty h
                (case item_node r of None \<Rightarrow> Undefined | Some n \<Rightarrow> node_js n) sortBy
      in if js_truthy v then v else Num 0)"

definition field_cmp :: "host \<Rightarrow> string \<Rightarrow> rat \<Rightarrow> item \<Rightarrow> item \<Rightarrow> rat" where
  "field_cmp h sortBy ord a b =
     (let aValue = sort_value h a sortBy; bValue = sort_value h b sortBy
      in case (aValue, bValue) of
           (Str x, Str y) \<Rightarrow> ord * localeCompare h x y
         | _ \<Rightarrow> (case (to_number h aValue, to_number h bValue) of
                   (Some x, Some y) \<Rightarrow> ord * (x - y)
                 | _ \<Rightarrow> 0))"

definition is_blank :: "string \<Rightarrow> bool" where
  "is_blank query = (query = [] \<or> trim query = [])"

definition query_terms :: "string \<Rightarrow> string list" where
  "query_terms query = split_ws [] (toLowerCase (trim query))"

definition score_nodes :: "string list \<Rightarrow> string list \<Rightarrow> node list \<Rightarrow> scored list" where
  "score_nodes searchIn queryTerms ns =
     map (\<lambda>n. \<lparr>sc_node = n, sc_score = node_score searchIn queryTerms n,
               sc_matchDetails = node_matchDetails searchIn queryTerms n\<rparr>) ns"

text \<open>The array \<^verbatim>\<open>results\<close> before the sort by a named field.\<close>

definition matched :: "string \<Rightarrow> search_options \<Rightarrow> node list \<Rightarrow> item list" where
  "matched query options ns =
     (if is_blank query then
        map Raw (sort_cmp (\<lambda>a b. of_int (timestamp b) - of_int (timestamp a)) ns)
      else
        map Scored
          (sort_cmp (\<lambda>a b. sc_score b - sc_score a)
             (filter (\<lambda>r. sc_score r > 0)
                (score_nodes (opt_searchIn options) (query_terms query) ns))))"

text \<open>The array \<^verbatim>\<open>results\<close> when it is paginated.\<close>

definition sorted_results :: "host \<Rightarrow> string \<Rightarrow> search_options \<Rightarrow> node list \<Rightarrow> item list" where
  "sorted_results h query options ns =
     (let rs = matched query options ns
      in if opt_sortBy options \<noteq> ''relevance''
         then sort_cmp (field_cmp h (opt_sortBy options)
                          (if opt_order options = ''asc'' then 1 else - 1)) rs
         else rs)"

definition search :: "host \<Rightarrow> string \<Rightarrow> search_options \<Rightarrow> kg \<Rightarrow> search_result" where
  "search h query options st =
     (let rs = sorted_results h query options (nodes st);
          paginatedResults = js_slice rs (opt_offset options)
                               (opt_offset options + opt_limit options)
      in \<lparr>sr_total = length rs, sr_offset = opt_offset options, sr_limit = opt_limit options,
          sr_results = map format_hit paginatedResults\<rparr>)"

section \<open>Traversal\<close>

record connection_options =
  co_depth :: "int option"
  co_limit :: "int option"
  co_edgeTypes :: "string list option"
  co_direction :: "string option"
  co_includeSelf :: "bool option"

definition opt_depth :: "connection_options \<Rightarrow> int" where
  "opt_depth options = or_num (co_depth options) 1"

definition opt_conn_limit :: "connection_options \<Rightarrow> int" where
  "opt_conn_limit options = or_num (co_limit options) 50"

definition opt_direction :: "connection_options \<Rightarrow> string" where
  "opt_direction options = or_str (co_direction options) ''both''"

definition opt_includeSelf :: "connection_options \<Rightarrow> bool" where
  "opt_includeSelf options = or_obj (co_includeSelf options) False"

record connection =
  conn_node :: node
  conn_edge :: "edge option"
  conn_depth :: int
  conn_direction :: "string option"

text \<open>The filter that builds \<^verbatim>\<open>connectedEdges\<close> from all stored edges.\<close>

definition connectedEdges :: "string \<Rightarrow> connection_options \<Rightarrow> edge list \<Rightarrow> edge list" where
  "connectedEdges nodeId options es =
     filter (\<lambda>e.
       if (case co_edgeTypes options of None \<Rightarrow> False | Some ts \<Rightarrow> edge_type e \<notin> set ts)
       then False
       else if opt_direction options = ''out'' then edge_source e = nodeId
       else if opt_direction options = ''in'' then edge_target e = nodeId
       else edge_source e = nodeId \<or> edge_target e = nodeId) es"

text \<open>
  The variables of the loops: the set \<^verbatim>\<open>visited\<close>, the array
  \<^verbatim>\<open>connectedNodes\<close> and the array \<^verbatim>\<open>nextNodesToProcess\<close>. A loop ends by
  running to its end, by the \<^verbatim>\<open>return\<close> at the limit, or by an error of
  \<^verbatim>\<open>getNode\<close>.
\<close>

record walk =
  visited :: "string list"
  connectedNodes :: "connection list"
  nextNodesToProcess :: "string list"

datatype outcome = Throw error | Return "connection list" | Next walk

fun process_edges ::
  "string \<Rightarrow> int \<Rightarrow> int \<Rightarrow> edge list \<Rightarrow> walk \<Rightarrow> kg \<Rightarrow> outcome \<times> kg" where
  "process_edges currentId currentDepth limit [] w st = (Next w, st)"
| "process_edges currentId currentDepth limit (e # es) w st =
     (let connectedId = (if edge_source e = currentId then edge_target e else edge_source e)
      in if connectedId \<in> set (visited w)
         then process_edges currentId currentDepth limit es w st
         else
           (let w1 = w\<lparr>visited := visited w @ [connectedId]\<rparr>
            in case getNode connectedId st of
                 (Inl err, st1) \<Rightarrow> (Throw err, st1)
               | (Inr connectedNode, st1) \<Rightarrow>
                  (let w2 =
                         (case connectedNode of
                            None \<Rightarrow> w1
                          | Some n \<Rightarrow>
                             w1\<lparr>connectedNodes := connectedNodes w1 @
                                   [\<lparr>conn_node = n, conn_edge = Some e, conn_depth = currentDepth,
                                     conn_direction =
                                       Some (if edge_source e = currentId then ''out'' else ''in'')\<rparr>],
                                nextNodesToProcess := nextNodesToProcess w1 @ [connectedId]\<rparr>)
                   in if limit \<noteq> 0 \<and> int (length (connectedNodes w2)) \<ge> limit
                      then (Return (connectedNodes w2), st1)
                      else process_edges currentId currentDepth limit es w2 st1)))"

definition include_self :: "string \<Rightarrow> walk \<Rightarrow> kg \<Rightarrow> (error + walk) \<times> kg" where
  "include_self currentId w st =
     (case getNode currentId st of
        (Inl err, st1) \<Rightarrow> (Inl err, st1)
      | (Inr None, st1) \<Rightarrow> (Inr w, st1)
      | (Inr (Some n), st1) \<Rightarrow>
         (Inr (w\<lparr>connectedNodes := connectedNodes w @
                   [\<lparr>conn_node = n, conn_edge = None, conn_depth = 0,
                     conn_direction = None\<rparr>]\<rparr>), st1))"

fun process_nodes ::
  "string \<Rightarrow> connection_options \<Rightarrow> edge list \<Rightarrow> int \<Rightarrow> string list \<Rightarrow> walk \<Rightarrow> kg
   \<Rightarrow> outcome \<times> kg" where
  "process_nodes nodeId options ces currentDepth [] w st = (Next w, st)"
| "process_nodes nodeId options ces currentDepth (currentId # rest) w st =
     (case (if opt_includeSelf options \<and> currentDepth = 1 \<and> currentId = nodeId
            then include_self currentId w st else (Inr w, st)) of
        (Inl err, st1) \<Rightarrow> (Throw err, st1)
      | (Inr w1, st1) \<Rightarrow>
         (let nodeEdges =
                filter (\<lambda>e. edge_source e = currentId \<or> edge_target e = currentId) ces
          in case process_edges currentId currentDepth (opt_conn_limit options) nodeEdges w1 st1 of
               (Next w2, st2) \<Rightarrow> process_nodes nodeId options ces currentDepth rest w2 st2
             | (other, st2) \<Rightarrow> (other, st2)))"

function levels ::
  "string \<Rightarrow> connection_options \<Rightarrow> edge list \<Rightarrow> int \<Rightarrow> string list \<Rightarrow> walk \<Rightarrow> kg
   \<Rightarrow> outcome \<times> kg" where
  "levels nodeId options ces currentDepth nodesToProcess w st =
     (if currentDepth \<le> opt_depth options \<and> nodesToProcess \<noteq> [] then
        (case process_nodes nodeId options ces currentDepth nodesToProcess
                (w\<lparr>nextNodesToProcess := []\<rparr>) st of
           (Next w1, st1) \<Rightarrow>
             levels nodeId options ces (currentDepth + 1) (nextNodesToProcess w1) w1 st1
         | (other, st1) \<Rightarrow> (other, st1))
      else (Return (connectedNodes w), st))"
  by pat_completeness auto
termination
  by (relation "measure (\<lambda>(nodeId, options, ces, currentDepth, nodesToProcess, w, st).
                   nat (opt_depth options + 1 - currentDepth))") auto

definition getConnectedNodes ::
  "string \<Rightarrow> connection_options \<Rightarrow> kg \<Rightarrow> connection list \<times> kg" where
  "getConnectedNodes nodeId options st =
     (if nodeId = [] then ([], st)
      else
        (let ces = connectedEdges nodeId options (edges st);
             w0 = \<lparr>visited = (if opt_includeSelf options then [] else [nodeId]),
                   connectedNodes = [], nextNodesToProcess = []\<rparr>
         in case levels nodeId options ces 1 [nodeId] w0 st of
              (Return cs, st1) \<Rightarrow> (cs, st1)
            | (Next w1, st1) \<Rightarrow> (connectedNodes w1, st1)
            | (Throw err, st1) \<Rightarrow> ([], st1)))"

section \<open>Derived notions and example stores\<close>

text \<open>
  The number stored under a key of a table of counters, \<open>0\<close> for a key that is missing or
  holds a string.
\<close>

definition bucket :: "counters \<Rightarrow> string \<Rightarrow> nat" where
  "bucket t k = (case map_of t k of Some (Count c) \<Rightarrow> c | _ \<Rightarrow> 0)"

definition empty_kg :: "(nat \<Rightarrow> nat) \<Rightarrow> kg" where
  "empty_kg g = \<lparr>nodes = [], edges = [], meta = None, nodeMemo = Map.empty, rng = g\<rparr>"

definition node_input ::
  "string \<Rightarrow> string \<Rightarrow> string list \<Rightarrow> string option \<Rightarrow> int \<Rightarrow> node_data" where
  "node_input i t tgs u ts =
     \<lparr>nd_id = Some i, nd_title = Some t, nd_content = None, nd_url = u,
      nd_timestamp = Some ts, nd_source = None, nd_metadata = None, nd_categories = None,
      nd_tags = Some tgs, nd_autoConnect = None\<rparr>"

definition edge_input :: "string \<Rightarrow> string \<Rightarrow> string \<Rightarrow> edge_data" where
  "edge_input i s t =
     \<lparr>ed_id = Some i, ed_source = Some s, ed_target = Some t, ed_type = None,
      ed_label = None, ed_weight = None, ed_bidirectional = None, ed_metadata = None,
      ed_timestamp = None\<rparr>"

text \<open>
  Four nodes \<open>a\<close>, \<open>b\<close>, \<open>c\<close>, \<open>d\<close> added to the empty store at times 1 to 4, then the
  edges \<open>a \<rightarrow> b\<close> and \<open>b \<rightarrow> c\<close>.
\<close>

definition example_nodes :: kg where
  "example_nodes =
     snd (addNode (Some (node_input ''d'' ''Home'' [] (Some ''https://doc.rust-lang.org'') 4)) 4
       (snd (addNode (Some (node_input ''c'' ''Rust Traits'' [] None 3)) 3
         (snd (addNode (Some (node_input ''b'' ''Go Concurrency'' [''go''] None 2)) 2
           (snd (addNode (Some (node_input ''a'' ''Rust Ownership'' [''rust''] None 1)) 1
             (empty_kg (\<lambda>i. i)))))))))"

definition example_store :: kg where
  "example_store =
     snd (addEdge (Some (edge_input ''e2'' ''b'' ''c'')) 6
       (snd (addEdge (Some (edge_input ''e1'' ''a'' ''b'')) 5 example_nodes)))"

definition example_host :: host where
  "example_host =
     \<lparr>localeCompare = (\<lambda>a b. 0), toNumber = (\<lambda>v. None), inherited = (\<lambda>v part. Undefined)\<rparr>"

definition default_search :: search_options where
  "default_search =
     \<lparr>so_limit = None, so_offset = None, so_sortBy = None, so_order = None,
      so_searchIn = None\<rparr>"

definition default_connection :: connection_options where
  "default_connection =
     \<lparr>co_depth = None, co_limit = None, co_edgeTypes = None, co_direction = None,
      co_includeSelf = None\<rparr>"

definition no_updates :: node_updates where
  "no_updates =
     \<lparr>up_title = None, up_content = None, up_url = None, up_timestamp = None,
      up_source = None, up_metadata = None, up_categories = None, up_tags = None,
      up_preview = None, up_createdAt = None\<rparr>"

definition paged :: "int \<Rightarrow> int \<Rightarrow> search_options" where
  "paged lmt off = default_search\<lparr>so_limit := Some lmt, so_offset := Some off\<rparr>"

definition depth_two :: connection_options where
  "depth_two = default_connection\<lparr>co_depth := Some 2\<rparr>"

definition self_limit_one :: connection_options where
  "self_limit_one = default_connection\<lparr>co_limit := Some 1, co_includeSelf := Some True\<rparr>"

definition clear_title :: node_updates where
  "clear_title = no_updates\<lparr>up_title := Some ''''\<rparr>"

text \<open>The ids of the stored nodes.\<close>

definition node_ids :: "kg \<Rightarrow> string set" where
  "node_ids st = node_id ` set (nodes st)"

text \<open>\<^verbatim>\<open>getNode(id)\<close> returns a node (neither \<^verbatim>\<open>null\<close> nor an error).\<close>

definition resolves :: "string \<Rightarrow> kg \<Rightarrow> bool" where
  "resolves nodeId st = (case fst (getNode nodeId st) of Inr (Some n) \<Rightarrow> True | _ \<Rightarrow> False)"

text \<open>
  Referential integrity: both ends of every stored edge are ids of stored nodes, and
  \<^verbatim>\<open>getNode\<close> finds them.
\<close>

definition referential_integrity :: "kg \<Rightarrow> bool" where
  "referential_integrity st =
     (\<forall>e \<in> set (edges st).
        edge_source e \<in> node_ids st \<and> edge_target e \<in> node_ids st
        \<and> resolves (edge_source e) st \<and> resolves (edge_target e) st)"

text \<open>
  The calls of the graph's interface that change the state (\<^verbatim>\<open>getNode\<close> and
  \<^verbatim>\<open>getConnectedNodes\<close> fill the cache). \<open>call\<close> gives the state a call leaves
  behind, whether it returns or throws.
\<close>

datatype api_call =
  AddNode "node_data option" int
| GetNode string
| UpdateNode string node_updates int
| DeleteNode string int
| AddEdge "edge_data option" int
| DeleteEdge string int
| GetConnectedNodes string connection_options

fun call :: "api_call \<Rightarrow> kg \<Rightarrow> kg" where
  "call (AddNode d now) st = snd (addNode d now st)"
| "call (GetNode nodeId) st = snd (getNode nodeId st)"
| "call (UpdateNode nodeId updates now) st = snd (updateNode nodeId updates now st)"
| "call (DeleteNode nodeId now) st = snd (deleteNode nodeId now st)"
| "call (AddEdge d now) st = snd (addEdge d now st)"
| "call (DeleteEdge edgeId now) st = snd (deleteEdge edgeId now st)"
| "call (GetConnectedNodes nodeId options) st = snd (getConnectedNodes nodeId options st)"

definition run :: "api_call list \<Rightarrow> kg \<Rightarrow> kg" where
  "run calls st = fold call calls st"

text \<open>
  The invariant behind referential integrity: edges end at stored nodes, the cache holds
  stored ids only, and no stored node has the empty id.
\<close>

definition store_inv :: "kg \<Rightarrow> bool" where
  "store_inv st =
     ((\<forall>e \<in> set (edges st). edge_source e \<in> node_ids st \<and> edge_target e \<in> node_ids st)
      \<and> dom (nodeMemo st) \<subseteq> node_ids st \<and> [] \<notin> node_ids st)"

text \<open>
  What \<^verbatim>\<open>getNode\<close>, \<^verbatim>\<open>addEdge\<close> and the traversal may do to a state: the node
  collection stays, the cache gains stored nodes only, and every new or rewritten edge
  joins two ids that resolve.
\<close>

definition extends :: "kg \<Rightarrow> kg \<Rightarrow> bool" where
  "extends st st' =
     (nodes st' = nodes st \<and> (\<forall>j. resolves j st' = resolves j st)
      \<and> dom (nodeMemo st') \<subseteq> dom (nodeMemo st) \<union> node_ids st
      \<and> (\<forall>e \<in> set (edges st').
            e \<in> set (edges st) \<or> (resolves (edge_source e) st \<and> resolves (edge_target e) st)))"

definition example_calls :: "api_call list" where
  "example_calls =
     [AddNode (Some (node_input ''a'' ''Rust Ownership'' [''rust''] None 1)) 1,
      AddNode (Some (node_input ''b'' ''Go Concurrency'' [''go''] None 2)) 2,
      AddEdge (Some (edge_input ''e1'' ''a'' ''b'')) 5]"

text \<open>A new node \<open>e\<close> to be connected to an id \<open>zz\<close> that is not stored.\<close>

definition dangling_input :: node_data where
  "dangling_input = (node_input ''e'' ''New'' [] None 7)\<lparr>nd_autoConnect := Some [''zz'']\<rparr>"

text \<open>A property of every entry that a loop of the traversal hands on.\<close>

definition outcome_all :: "(connection \<Rightarrow> bool) \<Rightarrow> outcome \<Rightarrow> bool" where
  "outcome_all Q out =
     (case out of
        Throw err \<Rightarrow> True
      | Return cs \<Rightarrow> list_all Q cs
      | Next w \<Rightarrow> list_all Q (connectedNodes w))"

text \<open>
  What an entry of the result of \<^verbatim>\<open>getConnectedNodes\<close> can be: the seed itself, or a
  node reached over a stored edge that has the seed at one end.
\<close>

definition seed_entry :: "connection_options \<Rightarrow> connection \<Rightarrow> bool" where
  "seed_entry options c =
     (opt_includeSelf options \<and> conn_edge c = None \<and> conn_depth c = 0
      \<and> conn_direction c = None)"

definition edge_entry :: "string \<Rightarrow> connection_options \<Rightarrow> kg \<Rightarrow> connection \<Rightarrow> bool" where
  "edge_entry nodeId options st c =
     (case conn_edge c of
        None \<Rightarrow> False
      | Some e \<Rightarrow>
         e \<in> set (edges st) \<and> (edge_source e = nodeId \<or> edge_target e = nodeId)
         \<and> 1 \<le> conn_depth c \<and> conn_depth c \<le> opt_depth options)"

text \<open>
  The lengths a loop of the traversal hands on, for a limit \<open>lmt\<close> and a number \<open>c\<close> of
  entries pushed without a look at the limit.
\<close>

definition outcome_bounded :: "int \<Rightarrow> int \<Rightarrow> outcome \<Rightarrow> bool" where
  "outcome_bounded lmt c out =
     (case out of
        Throw err \<Rightarrow> True
      | Return cs \<Rightarrow> int (length cs) \<le> max lmt (c + 1)
      | Next w \<Rightarrow> int (length (connectedNodes w)) \<le> max (lmt - 1) c)"

definition limit_one :: connection_options where
  "limit_one = default_connection\<lparr>co_limit := Some 1\<rparr>"

definition retitle :: node_updates where
  "retitle = no_updates\<lparr>up_title := Some ''Rust Borrowing''\<rparr>"

text \<open>The number that a value of a table of counters holds, \<open>0\<close> for a string.\<close>

definition count_value :: "counter \<Rightarrow> nat" where
  "count_value v = (case v of Count c \<Rightarrow> c | Text s \<Rightarrow> 0)"

definition is_count :: "counter \<Rightarrow> bool" where
  "is_count v = (case v of Count c \<Rightarrow> True | Text s \<Rightarrow> False)"

text \<open>
  A store built by three calls of \<^verbatim>\<open>addNode\<close>: node \<open>p\<close> with source
  \<^verbatim>\<open>'__proto__'\<close>, node \<open>q\<close> with source \<^verbatim>\<open>'constructor'\<close> and node \<open>r\<close> with no
  source given.
\<close>

definition source_input :: "string \<Rightarrow> string option \<Rightarrow> node_data" where
  "source_input i src = (node_input i ''Page'' [] None 1)\<lparr>nd_source := src\<rparr>"

definition inherited_sources :: kg where
  "inherited_sources =
     run [AddNode (Some (source_input ''p'' (Some ''__proto__''))) 1,
          AddNode (Some (source_input ''q'' (Some ''constructor''))) 2,
          AddNode (Some (source_input ''r'' None)) 3]
       (empty_kg (\<lambda>i. 0))"

text \<open>A new node \<open>e\<close> to be connected to its own id, which is not stored before the call.\<close>

definition self_input :: node_data where
  "self_input = (node_input ''e'' ''New'' [] None 7)\<lparr>nd_autoConnect := Some [''e'']\<rparr>"

section \<open>Statistics: the source distribution\<close>

lemma falsy_str_iff [simp]: "falsy_str x \<longleftrightarrow> \<not> truthy_str x"
  by (simp add: falsy_str_def truthy_str_def split: option.splits)

lemma truthy_obj_iff [simp]: "truthy_obj x \<longleftrightarrow> x \<noteq> None"
  by (simp add: truthy_obj_def split: option.splits)

lemma place_key_set: "set (place_key k v t) = insert (k, v) (set t)"
  by (induction t) (auto split: if_splits)

lemma place_key_keys: "set (map fst (place_key k v t)) = insert k (set (map fst t))"
  by (simp add: place_key_set)

lemma place_key_distinct:
  "k \<notin> set (map fst t) \<Longrightarrow> distinct (map fst t) \<Longrightarrow> distinct (map fst (place_key k v t))"
proof (induction t)
  case Nil
  then show ?case by simp
next
  case (Cons p t)
  then show ?case using place_key_keys [of k v t] by (cases p) auto
qed

lemma place_key_values: "snd ` set (place_key k v t) = insert v (snd ` set t)"
  by (simp add: place_key_set)

lemma place_key_sum:
  "sum_list (map (\<lambda>p. count_value (snd p)) (place_key k v t))
     = count_value v + sum_list (map (\<lambda>p. count_value (snd p)) t)"
  by (induction t) auto

lemma place_key_map_of:
  "k \<notin> set (map fst t) \<Longrightarrow> map_of (place_key k v t) k' = (if k' = k then Some v else map_of t k')"
  by (induction t) auto

lemma replace_keys:
  "map fst (map (\<lambda>(k', v'). if k' = k then (k', v) else (k', v')) t) = map fst t"
  by (induction t) auto

lemma replace_values:
  "snd ` set (map (\<lambda>(k', v'). if k' = k then (k', v) else (k', v')) t) \<subseteq> insert v (snd ` set t)"
  by (auto split: if_splits)

lemma replace_map_of_other:
  "k' \<noteq> k \<Longrightarrow>
   map_of (map (\<lambda>(k', v'). if k' = k then (k', v) else (k', v')) t) k' = map_of t k'"
  by (induction t) (simp_all add: case_prod_beta)

lemma replace_map_of_same:
  "map_of t k = Some w \<Longrightarrow>
   map_of (map (\<lambda>(k', v'). if k' = k then (k', v) else (k', v')) t) k = Some v"
  by (induction t) (simp_all add: case_prod_beta split: if_splits)

lemma replace_sum:
  "distinct (map fst t) \<Longrightarrow> map_of t k = Some (Count c) \<Longrightarrow>
   sum_list (map (\<lambda>p. count_value (snd p))
              (map (\<lambda>(k', v'). if k' = k then (k', Count (Suc c)) else (k', v')) t))
     = Suc (sum_list (map (\<lambda>p. count_value (snd p)) t))"
proof (induction t)
  case Nil
  then show ?case by simp
next
  case (Cons p t)
  obtain k0 v0 where p: "p = (k0, v0)"
    by (cases p)
  show ?case
  proof (cases "k0 = k")
    case True
    then have "k \<notin> set (map fst t)"
      using Cons.prems(1) p by simp
    then have "map (\<lambda>(k', v'). if k' = k then (k', Count (Suc c)) else (k', v')) t = t"
      by (induction t) auto
    then show ?thesis
      using Cons.prems(2) p True by (simp add: count_value_def)
  next
    case False
    then show ?thesis
      using Cons p by simp
  qed
qed

text \<open>
  A table whose keys are pairwise different and whose values are numbers stays such a
  table when a key that nothing is inherited under is counted, and the key's number grows
  by one.
\<close>

lemma count_key_own:
  assumes "inherited_text k = None" and "distinct (map fst t)"
    and "\<forall>v \<in> snd ` set t. is_count v"
  shows "distinct (map fst (count_key k t))"
    and "\<forall>v \<in> snd ` set (count_key k t). is_count v"
    and "sum_list (map (\<lambda>p. count_value (snd p)) (count_key k t))
           = Suc (sum_list (map (\<lambda>p. count_value (snd p)) t))"
    and "bucket (count_key k t) k' = (if k' = k then Suc (bucket t k') else bucket t k')"
proof -
  consider (new) "map_of t k = None" | (old) c where "map_of t k = Some (Count c)"
  proof (cases "map_of t k")
    case None
    then show ?thesis using new by simp
  next
    case (Some v)
    then have "v \<in> snd ` set t"
      by (metis map_of_SomeD snd_conv image_eqI)
    then have "is_count v"
      using assms(3) by blast
    then obtain c where "v = Count c"
      by (cases v) (simp_all add: is_count_def)
    then show ?thesis using old Some by simp
  qed
  then have "distinct (map fst (count_key k t))
      \<and> (\<forall>v \<in> snd ` set (count_key k t). is_count v)
      \<and> sum_list (map (\<lambda>p. count_value (snd p)) (count_key k t))
           = Suc (sum_list (map (\<lambda>p. count_value (snd p)) t))
      \<and> bucket (count_key k t) k' = (if k' = k then Suc (bucket t k') else bucket t k')"
  proof cases
    case new
    then have notin: "k \<notin> set (map fst t)"
      by (simp add: map_of_eq_None_iff)
    then have ck: "count_key k t = place_key k (Count 1) t"
      using new assms(1) by (simp add: count_key_def set_own_def)
    have c1: "count_value (Count (Suc 0)) = Suc 0" and i1: "is_count (Count (Suc 0))"
      by (simp_all add: count_value_def is_count_def)
    show ?thesis
      unfolding ck
      using notin assms(2,3) new
      by (simp add: place_key_distinct place_key_values place_key_sum place_key_map_of
            bucket_def c1 i1)
  next
    case old
    then have isin: "k \<in> set (map fst t)"
      by (metis map_of_eq_None_iff option.distinct(1) set_map)
    then have ck: "count_key k t
        = map (\<lambda>(k', v'). if k' = k then (k', Count (Suc c)) else (k', v')) t"
      using old by (simp add: count_key_def set_own_def)
    have vals: "\<forall>v \<in> snd ` set (count_key k t). is_count v"
      unfolding ck using replace_values [of k "Count (Suc c)" t] assms(3)
      by (auto simp: is_count_def)
    have dist: "distinct (map fst (count_key k t))"
      unfolding ck using assms(2) by (simp only: replace_keys)
    have total: "sum_list (map (\<lambda>p. count_value (snd p)) (count_key k t))
        = Suc (sum_list (map (\<lambda>p. count_value (snd p)) t))"
      unfolding ck by (rule replace_sum [OF assms(2) old])
    have "bucket (count_key k t) k' = (if k' = k then Suc (bucket t k') else bucket t k')"
      unfolding ck using old
      by (cases "k' = k")
        (simp_all add: bucket_def replace_map_of_other replace_map_of_same [OF old])
    then show ?thesis
      using dist vals total by simp
  qed
  then show "distinct (map fst (count_key k t))"
    and "\<forall>v \<in> snd ` set (count_key k t). is_count v"
    and "sum_list (map (\<lambda>p. count_value (snd p)) (count_key k t))
           = Suc (sum_list (map (\<lambda>p. count_value (snd p)) t))"
    and "bucket (count_key k t) k' = (if k' = k then Suc (bucket t k') else bucket t k')"
    by simp_all
qed

lemma fold_count_key_own:
  assumes "\<forall>n \<in> set ns. inherited_text (f n) = None" and "distinct (map fst t)"
    and "\<forall>v \<in> snd ` set t. is_count v"
  shows "distinct (map fst (fold (\<lambda>n acc. count_key (f n) acc) ns t))
     \<and> (\<forall>v \<in> snd ` set (fold (\<lambda>n acc. count_key (f n) acc) ns t). is_count v)
     \<and> sum_list (map (\<lambda>p. count_value (snd p)) (fold (\<lambda>n acc. count_key (f n) acc) ns t))
         = length ns + sum_list (map (\<lambda>p. count_value (snd p)) t)
     \<and> (\<forall>k. bucket (fold (\<lambda>n acc. count_key (f n) acc) ns t) k
            = length (filter (\<lambda>n. f n = k) ns) + bucket t k)"
  using assms
proof (induction ns arbitrary: t)
  case Nil
  then show ?case by simp
next
  case (Cons n ns)
  have inh: "inherited_text (f n) = None"
    using Cons.prems(1) by simp
  note step = count_key_own [OF inh Cons.prems(2) Cons.prems(3)]
  have rest: "\<forall>m \<in> set ns. inherited_text (f m) = None"
    using Cons.prems(1) by simp
  note ih = Cons.IH [OF rest step(1) step(2)]
  show ?case
    using ih by (simp add: step(3) step(4))
qed

text \<open>
  Where the claim C9 holds: when no node's source (\<^verbatim>\<open>'unknown'\<close> for the empty source)
  names a property that a plain object inherits, the values of \<^verbatim>\<open>sourceDistribution\<close>
  are numbers under pairwise different keys, they add up to \<^verbatim>\<open>nodeCount\<close>, and the
  number under a key is the number of nodes with that source.
\<close>

lemma source_distribution_own_keys:
  assumes "\<forall>n \<in> set (nodes st).
             inherited_text (if source n = [] then ''unknown'' else source n) = None"
  shows "sum_list (map (\<lambda>p. count_value (snd p)) (sourceDistribution (getStatistics st)))
           = nodeCount (getStatistics st)
     \<and> (\<forall>v \<in> snd ` set (sourceDistribution (getStatistics st)). is_count v)
     \<and> distinct (map fst (sourceDistribution (getStatistics st)))
     \<and> (\<forall>k. bucket (sourceDistribution (getStatistics st)) k
            = length (filter (\<lambda>n. (if source n = [] then ''unknown'' else source n) = k)
                        (nodes st)))"
proof -
  have key: "or_empty (source n) ''unknown'' = (if source n = [] then ''unknown'' else source n)"
    for n
    by (simp add: or_empty_def)
  have "\<forall>n \<in> set (nodes st). inherited_text (or_empty (source n) ''unknown'') = None"
    using assms by (simp add: key)
  from fold_count_key_own [where f = "\<lambda>n. or_empty (source n) ''unknown''" and t = "[]", OF this]
  show ?thesis
    by (simp add: getStatistics_def Let_def sourceCounts_def bucket_def key)
qed

text \<open>
  C9, where the code departs from it. In the store built by three calls of
  \<^verbatim>\<open>addNode\<close> with the sources \<^verbatim>\<open>'__proto__'\<close>, \<^verbatim>\<open>'constructor'\<close> and none,
  \<^verbatim>\<open>getStatistics\<close> reports \<^verbatim>\<open>nodeCount\<close> 3, but \<^verbatim>\<open>sourceDistribution\<close> has no
  key \<^verbatim>\<open>'__proto__'\<close>, holds a string and not a number under \<^verbatim>\<open>'constructor'\<close>, and
  the only number in it is the 1 under \<^verbatim>\<open>'manual'\<close>: the values do not add up to the
  number of nodes.
\<close>

theorem source_distribution_inherited_keys:
  "map node_id (nodes inherited_sources) = [''p'', ''q'', ''r'']
   \<and> map source (nodes inherited_sources) = [''__proto__'', ''constructor'', ''manual'']
   \<and> nodeCount (getStatistics inherited_sources) = 3
   \<and> sourceDistribution (getStatistics inherited_sources)
       = [(''constructor'', Text ''function Object() { [native code] }1''),
          (''manual'', Count 1)]
   \<and> sum_list (map (\<lambda>p. count_value (snd p)) (sourceDistribution (getStatistics inherited_sources)))
       = 1"
  by code_simp

section \<open>Search: pagination\<close>

lemma length_insort_cmp: "length (insort_cmp c x xs) = Suc (length xs)"
  by (induction xs) auto

lemma length_sort_cmp: "length (sort_cmp c xs) = length xs"
  by (induction xs) (auto simp: sort_cmp_def length_insort_cmp)

lemma length_js_slice:
  "0 \<le> off \<Longrightarrow> 0 \<le> lmt \<Longrightarrow>
   int (length (js_slice xs off (off + lmt))) = max 0 (min lmt (int (length xs) - off))"
  by (auto simp: js_slice_def Let_def min_def max_def)

lemma js_slice_take_drop:
  "0 \<le> off \<Longrightarrow> 0 \<le> lmt \<Longrightarrow>
   js_slice xs off (off + lmt) = take (nat lmt) (drop (nat off) xs)"
  by (auto simp: js_slice_def Let_def min_def max_def)

lemma length_matched:
  "length (matched q options ns) =
     (if is_blank q then length ns
      else length (filter (\<lambda>n. node_score (opt_searchIn options) (query_terms q) n > 0) ns))"
  by (simp add: matched_def length_sort_cmp score_nodes_def filter_map o_def)

lemma length_sorted_results:
  "length (sorted_results h q options ns) = length (matched q options ns)"
  by (simp add: sorted_results_def Let_def length_sort_cmp)

text \<open>
  C7. For every query and every options with \<^verbatim>\<open>limit: L\<close> and \<^verbatim>\<open>offset: O\<close>, both
  non-negative integers, \<^verbatim>\<open>search\<close> paginates after scoring and sorting: the returned
  results are the formatted elements \<open>O \<dots> O + L - 1\<close> of the fully sorted array, their
  number is \<open>max 0 (min L (total - O))\<close>, and \<^verbatim>\<open>total\<close> is the number of matched nodes
  before pagination (all nodes for a blank query, the nodes of positive score otherwise).
\<close>

theorem search_pagination:
  assumes "so_limit options = Some lmt" and "so_offset options = Some off"
    and "0 \<le> lmt" and "0 \<le> off"
  shows "int (length (sr_results (search h q options st)))
           = max 0 (min lmt (int (sr_total (search h q options st)) - off))
       \<and> sr_total (search h q options st) =
           (if is_blank q then length (nodes st)
            else length (filter (\<lambda>n. node_score (opt_searchIn options) (query_terms q) n > 0)
                           (nodes st)))
       \<and> sr_results (search h q options st) =
           map format_hit
             (take (nat lmt) (drop (nat off) (sorted_results h q options (nodes st))))"
  using assms
  by (simp add: search_def Let_def opt_limit_def opt_offset_def or_obj_def length_js_slice
        js_slice_take_drop length_sorted_results length_matched)

theorem search_pagination_witness:
  "so_limit (paged 1 0) = Some 1 \<and> so_offset (paged 1 0) = Some 0
   \<and> (0::int) \<le> 1 \<and> (0::int) \<le> 0
   \<and> sr_total (search example_host ''rust'' (paged 1 0) example_store) = 2
   \<and> length (sr_results (search example_host ''rust'' (paged 1 0) example_store)) = 1"
proof -
  have h1: "so_limit (paged 1 0) = Some 1" and h2: "so_offset (paged 1 0) = Some 0"
    by (simp_all add: paged_def)
  have p1: "(0::int) \<le> 1" and p0: "(0::int) \<le> 0"
    by simp_all
  have tot: "sr_total (search example_host ''rust'' (paged 1 0) example_store) = 2"
    by code_simp
  from search_pagination [OF h1 h2 p1 p0, of example_host "''rust''" example_store,
      THEN conjunct1] tot h1 h2
  show ?thesis by simp
qed

section \<open>Footprints of the storage operations\<close>

lemma updateKnowledgeMeta_fields [simp]:
  "nodes (updateKnowledgeMeta a b now st) = nodes st"
  "edges (updateKnowledgeMeta a b now st) = edges st"
  "nodeMemo (updateKnowledgeMeta a b now st) = nodeMemo st"
  "rng (updateKnowledgeMeta a b now st) = rng st"
  by (simp_all add: updateKnowledgeMeta_def Let_def)

lemma length_v4_replace: "length (fst (v4_replace t g)) = length t"
  by (induction t arbitrary: g) (simp_all add: Let_def case_prod_beta)

lemma uuidv4_fields [simp]:
  "nodes (snd (uuidv4 st)) = nodes st"
  "edges (snd (uuidv4 st)) = edges st"
  "nodeMemo (snd (uuidv4 st)) = nodeMemo st"
  by (simp_all add: uuidv4_def Let_def case_prod_beta)

lemma uuidv4_nonempty: "fst (uuidv4 st) \<noteq> []"
proof -
  have "length (fst (uuidv4 st)) = 36"
    using length_v4_replace [of "''xxxxxxxx-xxxx-4xxx-yxxx-xxxxxxxxxxxx''" "rng st"]
    by (simp add: uuidv4_def Let_def case_prod_beta)
  then show ?thesis by auto
qed

lemma findIndex_nonneg:
  "0 \<le> findIndex P xs \<Longrightarrow> nat (findIndex P xs) < length xs \<and> P (xs ! nat (findIndex P xs))"
proof (induction xs)
  case Nil
  then show ?case by simp
next
  case (Cons x xs)
  show ?case
  proof (cases "P x")
    case True
    then show ?thesis by simp
  next
    case False
    with Cons.prems have nn: "0 \<le> findIndex P xs"
      by (auto simp: Let_def split: if_splits)
    with Cons.IH have "nat (findIndex P xs) < length xs \<and> P (xs ! nat (findIndex P xs))"
      by simp
    with False nn show ?thesis
      by (auto simp: Let_def nat_add_distrib)
  qed
qed

lemma findIndex_neg: "findIndex P xs < 0 \<Longrightarrow> \<forall>x \<in> set xs. \<not> P x"
  by (induction xs) (auto simp: Let_def split: if_splits)

lemma findIndex_ge: "- 1 \<le> findIndex P xs"
  by (induction xs) (auto simp: Let_def)

lemma map_update_same: "i < length xs \<Longrightarrow> f y = f (xs ! i) \<Longrightarrow> map f (xs[i := y]) = map f xs"
  by (simp add: map_update list_update_same_conv)

lemma saveKnowledgeNode_invalid: "node_id n = [] \<Longrightarrow> saveKnowledgeNode n now st = (Inl (Error ''Invalid knowledge node''), st)"
  by (simp add: saveKnowledgeNode_def)

lemma saveKnowledgeNode_ok:
  assumes "node_id n \<noteq> []"
  shows "fst (saveKnowledgeNode n now st) = Inr True"
    and "edges (snd (saveKnowledgeNode n now st)) = edges st"
    and "nodeMemo (snd (saveKnowledgeNode n now st)) = nodeMemo st"
    and "node_ids (snd (saveKnowledgeNode n now st)) = insert (node_id n) (node_ids st)"
proof -
  let ?i = "findIndex (\<lambda>m. node_id m = node_id n) (nodes st)"
  show "fst (saveKnowledgeNode n now st) = Inr True"
    and "edges (snd (saveKnowledgeNode n now st)) = edges st"
    and "nodeMemo (snd (saveKnowledgeNode n now st)) = nodeMemo st"
    using assms by (simp_all add: saveKnowledgeNode_def Let_def)
  show "node_ids (snd (saveKnowledgeNode n now st)) = insert (node_id n) (node_ids st)"
  proof (cases "0 \<le> ?i")
    case True
    from findIndex_nonneg [OF True]
    have lt: "nat ?i < length (nodes st)" and eq: "node_id (nodes st ! nat ?i) = node_id n"
      by simp_all
    have "map node_id ((nodes st)[nat ?i := merge_node (nodes st ! nat ?i) n now]) = map node_id (nodes st)"
      using lt eq by (intro map_update_same) (simp_all add: merge_node_def)
    then have "node_id ` set ((nodes st)[nat ?i := merge_node (nodes st ! nat ?i) n now]) = node_id ` set (nodes st)"
      by (metis set_map)
    moreover have "node_id n \<in> node_id ` set (nodes st)"
      using lt eq by (metis nth_mem imageI)
    ultimately show ?thesis
      using assms True by (auto simp: saveKnowledgeNode_def Let_def node_ids_def)
  next
    case False
    then show ?thesis
      using assms by (auto simp: saveKnowledgeNode_def Let_def node_ids_def)
  qed
qed

lemma saveKnowledgeEdge_fields [simp]:
  "nodes (snd (saveKnowledgeEdge e now st)) = nodes st"
  "nodeMemo (snd (saveKnowledgeEdge e now st)) = nodeMemo st"
  by (simp_all add: saveKnowledgeEdge_def Let_def)

lemma saveKnowledgeEdge_edges:
  assumes "d \<in> set (edges (snd (saveKnowledgeEdge e now st)))"
  shows "d \<in> set (edges st) \<or> (edge_source d = edge_source e \<and> edge_target d = edge_target e)"
proof -
  have "set (xs[i := y]) \<subseteq> insert y (set xs)" for xs :: "edge list" and i y
    by (rule set_update_subset_insert)
  then show ?thesis
    using assms
    by (fastforce simp: saveKnowledgeEdge_def Let_def merge_edge_def split: if_splits)
qed

lemma getNode_fields [simp]:
  "nodes (snd (getNode k st)) = nodes st"
  "edges (snd (getNode k st)) = edges st"
  "rng (snd (getNode k st)) = rng st"
  by (simp_all add: getNode_def split: option.splits)

lemma find_node_id: "find (\<lambda>n. node_id n = k) ns = Some n \<Longrightarrow> k \<in> node_id ` set ns"
  by (auto simp: find_Some_iff)

lemma getNode_cache: "dom (nodeMemo st) \<subseteq> node_ids st \<Longrightarrow> dom (nodeMemo (snd (getNode k st))) \<subseteq> node_ids st"
  by (auto simp: getNode_def node_ids_def split: option.splits if_splits dest: find_node_id)

lemma getNode_found:
  "dom (nodeMemo st) \<subseteq> node_ids st \<Longrightarrow> fst (getNode k st) = Inr (Some n) \<Longrightarrow> k \<in> node_ids st"
  by (auto simp: getNode_def node_ids_def split: option.splits if_splits dest: find_node_id)

lemma node_ids_getNode [simp]: "node_ids (snd (getNode k st)) = node_ids st"
  by (simp add: node_ids_def)

lemma store_inv_getNode: "store_inv st \<Longrightarrow> store_inv (snd (getNode k st))"
  using getNode_cache [of st k] by (simp add: store_inv_def)

section \<open>States reached without touching the node collection\<close>

lemma resolves_iff:
  "resolves k st \<longleftrightarrow> k \<noteq> [] \<and> (nodeMemo st k \<noteq> None \<or> k \<in> node_ids st)"
proof -
  have "find (\<lambda>n. node_id n = k) (nodes st) = None \<longleftrightarrow> k \<notin> node_ids st"
    by (auto simp: find_None_iff node_ids_def)
  then show ?thesis
    by (auto simp: resolves_def getNode_def split: option.splits)
qed

lemma resolves_cong:
  "nodes st' = nodes st \<Longrightarrow> nodeMemo st' = nodeMemo st \<Longrightarrow> resolves j st' = resolves j st"
  by (simp add: resolves_iff node_ids_def)

lemma getNode_result:
  "fst (getNode k st) = Inr (Some n) \<Longrightarrow> resolves k st"
  "\<not> resolves k st \<Longrightarrow> (\<exists>e. fst (getNode k st) = Inl e) \<or> fst (getNode k st) = Inr None"
  by (auto simp: resolves_def split: sum.splits option.splits)

lemma extends_refl: "extends st st"
  by (simp add: extends_def)

lemma extends_trans:
  assumes "extends a b" and "extends b c"
  shows "extends a c"
proof -
  from assms have n: "nodes b = nodes a" "nodes c = nodes b"
    and r: "\<And>j. resolves j b = resolves j a" "\<And>j. resolves j c = resolves j b"
    and d: "dom (nodeMemo b) \<subseteq> dom (nodeMemo a) \<union> node_ids a"
           "dom (nodeMemo c) \<subseteq> dom (nodeMemo b) \<union> node_ids b"
    and e: "\<And>x. x \<in> set (edges b) \<Longrightarrow>
              x \<in> set (edges a) \<or> (resolves (edge_source x) a \<and> resolves (edge_target x) a)"
           "\<And>x. x \<in> set (edges c) \<Longrightarrow>
              x \<in> set (edges b) \<or> (resolves (edge_source x) b \<and> resolves (edge_target x) b)"
    by (simp_all add: extends_def)
  have ids: "node_ids b = node_ids a"
    using n by (simp add: node_ids_def)
  have "dom (nodeMemo c) \<subseteq> dom (nodeMemo a) \<union> node_ids a"
    using d ids by blast
  moreover have "x \<in> set (edges a) \<or> (resolves (edge_source x) a \<and> resolves (edge_target x) a)"
    if "x \<in> set (edges c)" for x
    using e(2) [OF that] e(1) [of x] r(1) by blast
  ultimately show ?thesis
    using n r by (simp add: extends_def)
qed

lemma resolves_in_store:
  "dom (nodeMemo st) \<subseteq> node_ids st \<Longrightarrow> resolves k st \<Longrightarrow> k \<in> node_ids st"
  by (auto simp: resolves_iff)

lemma extends_inv:
  assumes "store_inv st" and "extends st st'"
  shows "store_inv st'"
proof -
  from assms(1) have i: "\<And>e. e \<in> set (edges st) \<Longrightarrow> edge_source e \<in> node_ids st \<and> edge_target e \<in> node_ids st"
    and c: "dom (nodeMemo st) \<subseteq> node_ids st" and z: "[] \<notin> node_ids st"
    by (simp_all add: store_inv_def)
  from assms(2) have n: "nodes st' = nodes st"
    and d: "dom (nodeMemo st') \<subseteq> dom (nodeMemo st) \<union> node_ids st"
    and e: "\<And>x. x \<in> set (edges st') \<Longrightarrow>
              x \<in> set (edges st) \<or> (resolves (edge_source x) st \<and> resolves (edge_target x) st)"
    by (simp_all add: extends_def)
  have ids: "node_ids st' = node_ids st"
    using n by (simp add: node_ids_def)
  have "edge_source x \<in> node_ids st \<and> edge_target x \<in> node_ids st" if "x \<in> set (edges st')" for x
    using e [OF that] i [of x] resolves_in_store [OF c] by blast
  moreover have "dom (nodeMemo st') \<subseteq> node_ids st"
    using d c by blast
  ultimately show ?thesis
    using z by (simp add: store_inv_def ids)
qed

lemma extends_getNode: "extends st (snd (getNode k st))"
proof -
  let ?st' = "snd (getNode k st)"
  have f: "find (\<lambda>n. node_id n = k) (nodes st) = Some n \<Longrightarrow> k \<in> node_ids st" for n
    by (auto simp: node_ids_def dest: find_node_id)
  have d: "dom (nodeMemo ?st') \<subseteq> dom (nodeMemo st) \<union> node_ids st"
    using f by (auto simp: getNode_def split: option.splits if_splits)
  have m: "dom (nodeMemo st) \<subseteq> dom (nodeMemo ?st')"
    by (auto simp: getNode_def split: option.splits if_splits)
  have "resolves j ?st' = resolves j st" for j
    using d m unfolding resolves_iff node_ids_getNode by blast
  then show ?thesis
    using d by (simp add: extends_def)
qed

lemma extends_uuidv4: "extends st (snd (uuidv4 st))"
  using resolves_cong [of "snd (uuidv4 st)" st] by (simp add: extends_def)

lemma extends_saveKnowledgeEdge:
  assumes "resolves (edge_source e) st" and "resolves (edge_target e) st"
  shows "extends st (snd (saveKnowledgeEdge e now st))"
proof -
  let ?st' = "snd (saveKnowledgeEdge e now st)"
  have ed: "d \<in> set (edges st) \<or> (resolves (edge_source d) st \<and> resolves (edge_target d) st)"
    if "d \<in> set (edges ?st')" for d
    using saveKnowledgeEdge_edges [OF that] assms by auto
  then show ?thesis
    using resolves_cong [of ?st' st] by (simp add: extends_def)
qed

lemma extends_resolves: "extends st st' \<Longrightarrow> resolves j st' = resolves j st"
  by (simp add: extends_def)

lemma extends_nodes: "extends st st' \<Longrightarrow> nodes st' = nodes st"
  by (simp add: extends_def)

lemma getNode_extends: "getNode k st = (r, st') \<Longrightarrow> extends st st'"
  using extends_getNode [of st k] by simp

lemma getNode_resolved: "getNode k st = (Inr (Some n), st') \<Longrightarrow> resolves k st"
  using getNode_result(1) [of k st n] by simp

lemma getNode_unresolved:
  "getNode k st = (r, st') \<Longrightarrow> \<not> resolves k st \<Longrightarrow> (\<exists>e. r = Inl e) \<or> r = Inr None"
  using getNode_result(2) [of k st] by simp

lemma extends_addEdge: "extends st (snd (addEdge d now st))"
proof (cases d)
  case None
  then show ?thesis by (simp add: addEdge_def extends_refl)
next
  case (Some x)
  show ?thesis
  proof (cases "truthy_str (ed_source x) \<and> truthy_str (ed_target x)")
    case False
    then show ?thesis using Some by (auto simp: addEdge_def extends_refl)
  next
    case True
    let ?src = "the (ed_source x)" and ?tgt = "the (ed_target x)"
    obtain r1 st1 where g1: "getNode ?src st = (r1, st1)"
      by (cases "getNode ?src st")
    obtain r2 st2 where g2: "getNode ?tgt st1 = (r2, st2)"
      by (cases "getNode ?tgt st1")
    have e1: "extends st st1" and e2: "extends st1 st2"
      using g1 g2 by (auto dest: getNode_extends)
    have e12: "extends st st2"
      using e1 e2 by (rule extends_trans)
    show ?thesis
    proof (cases "\<exists>a b. r1 = Inr (Some a) \<and> r2 = Inr (Some b)")
      case False
      then have "snd (addEdge d now st) = st1 \<or> snd (addEdge d now st) = st2"
        using Some True g1 g2
        by (auto simp: addEdge_def Let_def split: sum.splits option.splits)
      then show ?thesis using e1 e12 by auto
    next
      case both: True
      then obtain a b where r1: "r1 = Inr (Some a)" and r2: "r2 = Inr (Some b)"
        by blast
      have rs: "resolves ?src st2" and rt: "resolves ?tgt st2"
        using g1 g2 r1 r2 e1 e2 getNode_resolved extends_resolves by blast+
      obtain edgeId st3 where
        id3: "(if truthy_str (ed_id x) then (the (ed_id x), st2)
               else (let (u, st') = uuidv4 st2
                     in (?src @ ''-'' @ ?tgt @ ''-'' @ take 8 u, st'))) = (edgeId, st3)"
        by (metis surj_pair)
      have "st3 = st2 \<or> st3 = snd (uuidv4 st2)"
        using id3 by (auto simp: Let_def case_prod_beta split: if_splits)
      then have e3: "extends st2 st3"
        using extends_refl extends_uuidv4 by auto
      define e where "e = \<lparr>edge_id = edgeId, edge_source = ?src, edge_target = ?tgt,
                               edge_type = or_str (ed_type x) ''related'',
                               edge_label = or_str (ed_label x) '''',
                               edge_weight = or_obj (ed_weight x) 1,
                               edge_bidirectional = or_obj (ed_bidirectional x) False,
                               edge_metadata = or_obj (ed_metadata x) [],
                               edge_timestamp = or_num (ed_timestamp x) now,
                               edge_createdAt = None, edge_updatedAt = None\<rparr>"
      have "resolves (edge_source e) st3" and "resolves (edge_target e) st3"
        using rs rt e3 by (simp_all add: e_def extends_resolves)
      then have e4: "extends st3 (snd (saveKnowledgeEdge e now st3))"
        by (rule extends_saveKnowledgeEdge)
      have "snd (addEdge d now st) = snd (saveKnowledgeEdge e now st3)"
        using Some True g1 g2 r1 r2 id3
        by (simp add: addEdge_def Let_def e_def split: prod.splits sum.splits)
      then show ?thesis
        using e12 e3 e4 extends_trans by metis
    qed
  qed
qed

lemma addEdge_unresolved:
  assumes "ed_target x = Some t" and "\<not> resolves t st"
  shows "\<exists>e. fst (addEdge (Some x) now st) = Inl e"
proof (cases "truthy_str (ed_source x) \<and> truthy_str (ed_target x)")
  case False
  then show ?thesis by (auto simp: addEdge_def)
next
  case True
  let ?src = "the (ed_source x)"
  obtain r1 st1 where g1: "getNode ?src st = (r1, st1)"
    by (cases "getNode ?src st")
  obtain r2 st2 where g2: "getNode t st1 = (r2, st2)"
    by (cases "getNode t st1")
  have "\<not> resolves t st1"
    using assms(2) g1 getNode_extends extends_resolves by blast
  then have "(\<exists>e. r2 = Inl e) \<or> r2 = Inr None"
    using g2 by (rule getNode_unresolved [rotated])
  then show ?thesis
    using True assms(1) g1 g2
    by (auto simp: addEdge_def Let_def split: sum.splits option.splits)
qed

lemma extends_autoConnect: "extends st (snd (autoConnect nodeId targets now st))"
proof (induction targets arbitrary: st)
  case Nil
  then show ?case by (simp add: extends_refl)
next
  case (Cons t ts)
  let ?d = "Some \<lparr>ed_id = None, ed_source = Some nodeId, ed_target = Some t,
                          ed_type = Some ''auto-connected'', ed_label = None,
                          ed_weight = Some (1 / 2), ed_bidirectional = None,
                          ed_metadata = None, ed_timestamp = None\<rparr>"
  obtain r st1 where a: "addEdge ?d now st = (r, st1)"
    by (cases "addEdge ?d now st")
  then have e1: "extends st st1"
    using extends_addEdge [of st ?d now] by simp
  show ?case
  proof (cases r)
    case (Inl e)
    then show ?thesis using a e1 by simp
  next
    case (Inr i)
    then show ?thesis
      using a e1 Cons.IH [of st1] extends_trans by auto
  qed
qed

lemma autoConnect_unresolved:
  assumes "t \<in> set targets" and "\<not> resolves t st"
  shows "\<exists>e. fst (autoConnect nodeId targets now st) = Inl e"
  using assms
proof (induction targets arbitrary: st)
  case Nil
  then show ?case by simp
next
  case (Cons u us)
  let ?d = "\<lparr>ed_id = None, ed_source = Some nodeId, ed_target = Some u,
                          ed_type = Some ''auto-connected'', ed_label = None,
                          ed_weight = Some (1 / 2), ed_bidirectional = None,
                          ed_metadata = None, ed_timestamp = None\<rparr>"
  obtain r st1 where a: "addEdge (Some ?d) now st = (r, st1)"
    by (cases "addEdge (Some ?d) now st")
  show ?case
  proof (cases r)
    case (Inl e)
    then show ?thesis using a by simp
  next
    case (Inr i)
    have "u \<noteq> t"
    proof
      assume "u = t"
      then have "\<exists>e. fst (addEdge (Some ?d) now st) = Inl e"
        using addEdge_unresolved [of ?d t st now] Cons.prems(2) by simp
      then show False using a Inr by simp
    qed
    then have "t \<in> set us" using Cons.prems(1) by simp
    moreover have "\<not> resolves t st1"
      using a extends_addEdge [of st "Some ?d" now] Cons.prems(2) extends_resolves by fastforce
    ultimately have "\<exists>e. fst (autoConnect nodeId us now st1) = Inl e"
      by (rule Cons.IH)
    then show ?thesis using a Inr by simp
  qed
qed

lemma extends_process_edges:
  "extends st (snd (process_edges currentId currentDepth limit es w st))"
proof (induction es arbitrary: w st)
  case Nil
  then show ?case by (simp add: extends_refl)
next
  case (Cons e es)
  let ?c = "if edge_source e = currentId then edge_target e else edge_source e"
  show ?case
  proof (cases "?c \<in> set (visited w)")
    case True
    then show ?thesis using Cons.IH by (simp add: Let_def)
  next
    case False
    obtain r st1 where g: "getNode ?c st = (r, st1)"
      by (cases "getNode ?c st")
    then have e1: "extends st st1"
      by (rule getNode_extends)
    have "extends st1 (snd (process_edges currentId currentDepth limit es w' st1))" for w'
      by (rule Cons.IH)
    then have "extends st (snd (process_edges currentId currentDepth limit es w' st1))" for w'
      using e1 extends_trans by blast
    then show ?thesis
      using False g e1
      by (auto simp: Let_def split: sum.splits option.splits)
  qed
qed

lemma extends_include_self: "extends st (snd (include_self currentId w st))"
  using extends_getNode [of st currentId]
  by (auto simp: include_self_def split: prod.splits sum.splits option.splits)

lemma extends_process_nodes:
  "extends st (snd (process_nodes nodeId options ces currentDepth todo w st))"
proof (induction todo arbitrary: w st)
  case Nil
  then show ?case by (simp add: extends_refl)
next
  case (Cons currentId rest)
  let ?pre = "if opt_includeSelf options \<and> currentDepth = 1 \<and> currentId = nodeId
              then include_self currentId w st else (Inr w, st)"
  obtain r st1 where p: "?pre = (r, st1)"
    by (cases ?pre)
  have e1: "extends st st1"
    using p extends_include_self [of st currentId w] extends_refl [of st]
    by (auto split: if_splits)
  show ?case
  proof (cases r)
    case (Inl err)
    then show ?thesis using p e1 by simp
  next
    case (Inr w1)
    let ?es = "filter (\<lambda>e. edge_source e = currentId \<or> edge_target e = currentId) ces"
    obtain out st2 where q:
      "process_edges currentId currentDepth (opt_conn_limit options) ?es w1 st1 = (out, st2)"
      by (cases "process_edges currentId currentDepth (opt_conn_limit options) ?es w1 st1")
    have e2: "extends st1 st2"
      using q extends_process_edges [of st1 currentId currentDepth "opt_conn_limit options" ?es w1]
      by simp
    have e12: "extends st st2"
      using e1 e2 by (rule extends_trans)
    have "extends st (snd (process_nodes nodeId options ces currentDepth rest w2 st2))" for w2
      using e12 Cons.IH extends_trans by blast
    then show ?thesis
      using p Inr q e12 by (cases out) (simp_all add: Let_def)
  qed
qed

lemma extends_levels:
  "extends st (snd (levels nodeId options ces currentDepth todo w st))"
proof (induction nodeId options ces currentDepth todo w st rule: levels.induct)
  case (1 nodeId options ces currentDepth nodesToProcess w st)
  show ?case
  proof (cases "currentDepth \<le> opt_depth options \<and> nodesToProcess \<noteq> []")
    case False
    then show ?thesis by (simp add: extends_refl)
  next
    case True
    obtain out st1 where p:
      "process_nodes nodeId options ces currentDepth nodesToProcess
         (w\<lparr>nextNodesToProcess := []\<rparr>) st = (out, st1)"
      by (cases "process_nodes nodeId options ces currentDepth nodesToProcess
                   (w\<lparr>nextNodesToProcess := []\<rparr>) st")
    have e1: "extends st st1"
      using p extends_process_nodes [of st nodeId options ces currentDepth nodesToProcess
          "w\<lparr>nextNodesToProcess := []\<rparr>"]
      by simp
    show ?thesis
    proof (cases out)
      case (Next w1)
      have "extends st1 (snd (levels nodeId options ces (currentDepth + 1)
                                 (nextNodesToProcess w1) w1 st1))"
        using "1.IH" [OF True p [symmetric] Next] by simp
      then show ?thesis
        using True p Next e1 extends_trans
        by (subst levels.simps) (auto simp del: levels.simps)
    next
      case (Throw err)
      then show ?thesis using True p e1 by (subst levels.simps) (simp del: levels.simps)
    next
      case (Return cs)
      then show ?thesis using True p e1 by (subst levels.simps) (simp del: levels.simps)
    qed
  qed
qed

lemma extends_getConnectedNodes: "extends st (snd (getConnectedNodes nodeId options st))"
proof (cases "nodeId = []")
  case True
  then show ?thesis by (simp add: getConnectedNodes_def extends_refl)
next
  case False
  let ?ces = "connectedEdges nodeId options (edges st)"
  let ?w0 = "\<lparr>visited = (if opt_includeSelf options then [] else [nodeId]),
             connectedNodes = [], nextNodesToProcess = []\<rparr>"
  obtain out st1 where l: "levels nodeId options ?ces 1 [nodeId] ?w0 st = (out, st1)"
    by (cases "levels nodeId options ?ces 1 [nodeId] ?w0 st")
  have "extends st st1"
    using extends_levels [of st nodeId options ?ces 1 "[nodeId]" ?w0] l by simp
  then show ?thesis
    using False l
    by (cases out) (simp_all add: getConnectedNodes_def Let_def del: levels.simps)
qed

section \<open>The invariant of the interface\<close>

lemma assign_id_nonempty: "fst (assign_id x st) \<noteq> []"
  using uuidv4_nonempty [of st] by (cases "nd_id x") (auto simp: assign_id_def truthy_str_def)

lemma extends_assign_id: "extends st (snd (assign_id x st))"
  by (simp add: assign_id_def extends_refl extends_uuidv4)

lemma node_id_new_node [simp]: "node_id (new_node x nodeId now) = nodeId"
  by (simp add: new_node_def)

lemma addNode_unfold:
  "addNode (Some x) now st =
     (let nodeId = fst (assign_id x st);
          n = new_node x nodeId now;
          st1 = snd (saveKnowledgeNode n now (snd (assign_id x st)));
          st2 = st1\<lparr>nodeMemo := (nodeMemo st1)(nodeId \<mapsto> n)\<rparr>
      in case nd_autoConnect x of
           None \<Rightarrow> (Inr nodeId, st2)
         | Some targets \<Rightarrow>
            (case autoConnect nodeId targets now st2 of
               (Inl e, st3) \<Rightarrow> (Inl e, st3)
             | (Inr u, st3) \<Rightarrow> (Inr nodeId, st3)))"
proof -
  let ?n = "new_node x (fst (assign_id x st)) now"
  have "fst (saveKnowledgeNode ?n now (snd (assign_id x st))) = Inr True"
    using assign_id_nonempty [of x st] by (intro saveKnowledgeNode_ok(1)) simp
  then show ?thesis
    by (simp add: addNode_def Let_def case_prod_beta split: sum.splits)
qed

lemma store_inv_saveKnowledgeNode:
  assumes "store_inv st" and "node_id n \<noteq> []"
  shows "store_inv (snd (saveKnowledgeNode n now st))"
  using assms saveKnowledgeNode_ok(2-4) [OF assms(2), of now st]
  by (auto simp: store_inv_def)

lemma store_inv_cache:
  assumes "store_inv st" and "k \<in> node_ids st"
  shows "store_inv (st\<lparr>nodeMemo := (nodeMemo st)(k \<mapsto> n)\<rparr>)"
  using assms by (auto simp: store_inv_def node_ids_def)

lemma store_inv_addNode: "store_inv st \<Longrightarrow> store_inv (snd (addNode d now st))"
proof (cases d)
  case None
  assume "store_inv st"
  then show ?thesis using None by (simp add: addNode_def)
next
  case (Some x)
  assume i: "store_inv st"
  let ?id = "fst (assign_id x st)"
  let ?n = "new_node x ?id now"
  let ?st1 = "snd (saveKnowledgeNode ?n now (snd (assign_id x st)))"
  let ?st2 = "?st1\<lparr>nodeMemo := (nodeMemo ?st1)(?id \<mapsto> ?n)\<rparr>"
  have i0: "store_inv (snd (assign_id x st))"
    using i extends_assign_id by (rule extends_inv)
  have ne: "node_id ?n \<noteq> []"
    using assign_id_nonempty [of x st] by simp
  have i1: "store_inv ?st1"
    using i0 ne by (rule store_inv_saveKnowledgeNode)
  have "?id \<in> node_ids ?st1"
    using saveKnowledgeNode_ok(4) [OF ne, of now "snd (assign_id x st)"] by simp
  with i1 have i2: "store_inv ?st2"
    by (rule store_inv_cache)
  have i3: "store_inv (snd (autoConnect ?id targets now ?st2))" for targets
    using i2 extends_autoConnect by (rule extends_inv)
  show ?thesis
    using Some i2 i3
    by (simp add: addNode_unfold Let_def case_prod_beta split: option.splits sum.splits)
qed

lemma store_inv_addEdge: "store_inv st \<Longrightarrow> store_inv (snd (addEdge d now st))"
  by (rule extends_inv [OF _ extends_addEdge])

lemma store_inv_getConnectedNodes:
  "store_inv st \<Longrightarrow> store_inv (snd (getConnectedNodes nodeId options st))"
  by (rule extends_inv [OF _ extends_getConnectedNodes])

lemma store_inv_updateNode: "store_inv st \<Longrightarrow> store_inv (snd (updateNode nodeId updates now st))"
proof (cases "nodeId = []")
  case True
  assume "store_inv st"
  then show ?thesis using True by (simp add: updateNode_def)
next
  case False
  assume i: "store_inv st"
  obtain r st1 where g: "getNode nodeId st = (r, st1)"
    by (cases "getNode nodeId st")
  have i1: "store_inv st1"
    using i getNode_extends [OF g] by (rule extends_inv)
  show ?thesis
  proof (cases "\<exists>n. r = Inr (Some n)")
    case False
    then show ?thesis
      using \<open>nodeId \<noteq> []\<close> g i1
      by (auto simp: updateNode_def split: sum.splits option.splits)
  next
    case True
    then obtain n where r: "r = Inr (Some n)" by blast
    let ?merged = "apply_updates n updates nodeId now"
    let ?u = "if up_content updates \<noteq> None \<or> truthy_str (up_title updates)
              then ?merged\<lparr>preview := node_preview ?merged now\<rparr> else ?merged"
    have idu: "node_id ?u = nodeId"
      by (simp add: apply_updates_def)
    let ?st2 = "snd (saveKnowledgeNode ?u now st1)"
    have i2: "store_inv ?st2"
      using i1 idu \<open>nodeId \<noteq> []\<close> by (intro store_inv_saveKnowledgeNode) simp_all
    have "nodeId \<in> node_ids ?st2"
      using saveKnowledgeNode_ok(4) [of ?u now st1] idu \<open>nodeId \<noteq> []\<close> by simp
    with i2 have i3: "store_inv (?st2\<lparr>nodeMemo := (nodeMemo ?st2)(nodeId \<mapsto> ?u)\<rparr>)"
      by (rule store_inv_cache)
    have ok: "fst (saveKnowledgeNode ?u now st1) = Inr True"
      using idu \<open>nodeId \<noteq> []\<close> by (intro saveKnowledgeNode_ok(1)) simp
    have "snd (updateNode nodeId updates now st)
            = ?st2\<lparr>nodeMemo := (nodeMemo ?st2)(nodeId \<mapsto> ?u)\<rparr>"
      using \<open>nodeId \<noteq> []\<close> g r ok
      by (simp add: updateNode_def Let_def case_prod_beta split del: if_split)
    then show ?thesis using i3 by simp
  qed
qed

lemma filter_length_eq: "length (filter P xs) = length xs \<Longrightarrow> filter P xs = xs"
proof (induction xs)
  case Nil
  then show ?case by simp
next
  case (Cons x xs)
  show ?case
  proof (cases "P x")
    case True
    with Cons show ?thesis by simp
  next
    case False
    with Cons.prems have "length (filter P xs) = Suc (length xs)"
      by simp
    moreover have "length (filter P xs) \<le> length xs"
      by (rule length_filter_le)
    ultimately have False
      by linarith
    then show ?thesis ..
  qed
qed

lemma node_ids_nodeMemo [simp]: "node_ids (st\<lparr>nodeMemo := m\<rparr>) = node_ids st"
  by (simp add: node_ids_def)

lemma deleteEdgesForNode_edges:
  "edges (snd (deleteEdgesForNode nodeId now st))
     = filter (\<lambda>e. edge_source e \<noteq> nodeId \<and> edge_target e \<noteq> nodeId) (edges st)"
  "nodes (snd (deleteEdgesForNode nodeId now st)) = nodes st"
  "nodeMemo (snd (deleteEdgesForNode nodeId now st)) = nodeMemo st"
proof -
  let ?f = "filter (\<lambda>e. edge_source e \<noteq> nodeId \<and> edge_target e \<noteq> nodeId) (edges st)"
  show "edges (snd (deleteEdgesForNode nodeId now st)) = ?f"
  proof (cases "length ?f = length (edges st)")
    case True
    then have "?f = edges st" by (rule filter_length_eq)
    then show ?thesis using True by (simp add: deleteEdgesForNode_def Let_def)
  next
    case False
    then show ?thesis by (simp add: deleteEdgesForNode_def Let_def)
  qed
  show "nodes (snd (deleteEdgesForNode nodeId now st)) = nodes st"
    and "nodeMemo (snd (deleteEdgesForNode nodeId now st)) = nodeMemo st"
    by (simp_all add: deleteEdgesForNode_def Let_def)
qed

lemma deleteKnowledgeNode_absent:
  "nodeId \<notin> node_ids st \<Longrightarrow> deleteKnowledgeNode nodeId now st = (False, st)"
proof -
  assume "nodeId \<notin> node_ids st"
  then have "filter (\<lambda>n. node_id n \<noteq> nodeId) (nodes st) = nodes st"
    unfolding node_ids_def filter_id_conv by blast
  then show ?thesis by (simp add: deleteKnowledgeNode_def Let_def)
qed

lemma deleteKnowledgeNode_present:
  assumes "nodeId \<in> node_ids st"
  shows "fst (deleteKnowledgeNode nodeId now st) = True"
    and "nodes (snd (deleteKnowledgeNode nodeId now st))
           = filter (\<lambda>n. node_id n \<noteq> nodeId) (nodes st)"
    and "edges (snd (deleteKnowledgeNode nodeId now st))
           = filter (\<lambda>e. edge_source e \<noteq> nodeId \<and> edge_target e \<noteq> nodeId) (edges st)"
    and "nodeMemo (snd (deleteKnowledgeNode nodeId now st)) = nodeMemo st"
proof -
  have "filter (\<lambda>n. node_id n \<noteq> nodeId) (nodes st) \<noteq> nodes st"
    using assms unfolding node_ids_def filter_id_conv by blast
  then have "length (filter (\<lambda>n. node_id n \<noteq> nodeId) (nodes st)) \<noteq> length (nodes st)"
    using filter_length_eq by blast
  then show "fst (deleteKnowledgeNode nodeId now st) = True"
    and "nodes (snd (deleteKnowledgeNode nodeId now st))
           = filter (\<lambda>n. node_id n \<noteq> nodeId) (nodes st)"
    and "edges (snd (deleteKnowledgeNode nodeId now st))
           = filter (\<lambda>e. edge_source e \<noteq> nodeId \<and> edge_target e \<noteq> nodeId) (edges st)"
    and "nodeMemo (snd (deleteKnowledgeNode nodeId now st)) = nodeMemo st"
    by (simp_all add: deleteKnowledgeNode_def Let_def case_prod_beta deleteEdgesForNode_edges)
qed

lemma deleteNode_unfold:
  "nodeId \<noteq> [] \<Longrightarrow>
   deleteNode nodeId now st =
     (Inr (fst (deleteKnowledgeNode nodeId now st)),
      (snd (deleteKnowledgeNode nodeId now st))
        \<lparr>nodeMemo := (nodeMemo (snd (deleteKnowledgeNode nodeId now st)))(nodeId := None)\<rparr>)"
  by (simp add: deleteNode_def case_prod_beta)

lemma store_inv_deleteNode: "store_inv st \<Longrightarrow> store_inv (snd (deleteNode nodeId now st))"
proof (cases "nodeId = []")
  case True
  assume "store_inv st"
  then show ?thesis using True by (simp add: deleteNode_def)
next
  case False
  assume i: "store_inv st"
  show ?thesis
  proof (cases "nodeId \<in> node_ids st")
    case absent: False
    then show ?thesis
      using i False
      by (auto simp: deleteNode_unfold deleteKnowledgeNode_absent store_inv_def node_ids_def)
  next
    case True
    have "node_ids (snd (deleteKnowledgeNode nodeId now st)) = node_ids st - {nodeId}"
      by (auto simp: node_ids_def deleteKnowledgeNode_present(2) [OF True])
    then show ?thesis
      using i False
      by (auto simp: deleteNode_unfold store_inv_def deleteKnowledgeNode_present(3,4) [OF True])
  qed
qed

lemma store_inv_deleteEdge: "store_inv st \<Longrightarrow> store_inv (snd (deleteEdge edgeId now st))"
  by (auto simp: deleteEdge_def deleteKnowledgeEdge_def Let_def store_inv_def node_ids_def)

lemma store_inv_call: "store_inv st \<Longrightarrow> store_inv (call c st)"
  using extends_getNode extends_inv
  by (cases c)
     (auto simp: store_inv_addNode store_inv_updateNode store_inv_deleteNode
        store_inv_addEdge store_inv_deleteEdge store_inv_getConnectedNodes)

lemma store_inv_run: "store_inv st \<Longrightarrow> store_inv (run calls st)"
  unfolding run_def by (induction calls arbitrary: st) (simp_all add: store_inv_call)

lemma store_inv_empty: "store_inv (empty_kg g)"
  by (simp add: store_inv_def empty_kg_def node_ids_def)

lemma store_inv_integrity: "store_inv st \<Longrightarrow> referential_integrity st"
  by (auto simp: store_inv_def referential_integrity_def resolves_iff)

section \<open>Referential integrity\<close>

lemma deleteNode_success:
  assumes "deleteNode nodeId now st = (Inr True, st')"
  shows "edges st' = filter (\<lambda>e. edge_source e \<noteq> nodeId \<and> edge_target e \<noteq> nodeId) (edges st)"
    and "nodeId \<notin> node_ids st'"
proof -
  have ne: "nodeId \<noteq> []"
    using assms by (auto simp: deleteNode_def)
  have "fst (deleteKnowledgeNode nodeId now st) = True"
    using assms ne by (simp add: deleteNode_unfold)
  then have present: "nodeId \<in> node_ids st"
    using deleteKnowledgeNode_absent [of nodeId st now] by (cases "nodeId \<in> node_ids st") simp_all
  have st': "st' = (snd (deleteKnowledgeNode nodeId now st))
        \<lparr>nodeMemo := (nodeMemo (snd (deleteKnowledgeNode nodeId now st)))(nodeId := None)\<rparr>"
    using assms ne by (simp add: deleteNode_unfold)
  show "edges st' = filter (\<lambda>e. edge_source e \<noteq> nodeId \<and> edge_target e \<noteq> nodeId) (edges st)"
    by (simp add: st' deleteKnowledgeNode_present(3) [OF present])
  show "nodeId \<notin> node_ids st'"
    by (auto simp: st' node_ids_def deleteKnowledgeNode_present(2) [OF present])
qed

text \<open>
  C4. In every state that calls of the graph's interface reach from the empty store, both
  ends of every stored edge are ids of stored nodes and \<^verbatim>\<open>getNode\<close> finds them; and
  a \<^verbatim>\<open>deleteNode(n)\<close> that returns \<^verbatim>\<open>true\<close> leaves exactly the edges that do
  not have \<open>n\<close> as source or target, so that no stored edge refers to \<open>n\<close>, and \<open>n\<close> is
  no longer stored.
\<close>

theorem referential_integrity_holds:
  "referential_integrity (run calls (empty_kg g))
   \<and> (\<forall>nodeId now st st'.
         deleteNode nodeId now st = (Inr True, st') \<longrightarrow>
           edges st' = filter (\<lambda>e. edge_source e \<noteq> nodeId \<and> edge_target e \<noteq> nodeId) (edges st)
           \<and> (\<forall>e \<in> set (edges st'). edge_source e \<noteq> nodeId \<and> edge_target e \<noteq> nodeId)
           \<and> nodeId \<notin> node_ids st')"
proof -
  have "referential_integrity (run calls (empty_kg g))"
    by (intro store_inv_integrity store_inv_run store_inv_empty)
  moreover have "edges st' = filter (\<lambda>e. edge_source e \<noteq> nodeId \<and> edge_target e \<noteq> nodeId) (edges st)
           \<and> (\<forall>e \<in> set (edges st'). edge_source e \<noteq> nodeId \<and> edge_target e \<noteq> nodeId)
           \<and> nodeId \<notin> node_ids st'"
    if "deleteNode nodeId now st = (Inr True, st')" for nodeId now st st'
    using deleteNode_success [OF that] by simp
  ultimately show ?thesis by blast
qed

theorem referential_integrity_witness:
  "map edge_source (edges (run example_calls (empty_kg (\<lambda>i. i)))) = [''a'']
   \<and> map edge_target (edges (run example_calls (empty_kg (\<lambda>i. i)))) = [''b'']
   \<and> referential_integrity (run example_calls (empty_kg (\<lambda>i. i)))
   \<and> fst (deleteNode ''c'' 9 example_store) = Inr True
   \<and> map edge_id (edges example_store) = [''e1'', ''e2'']
   \<and> map edge_id (edges (snd (deleteNode ''c'' 9 example_store))) = [''e1'']
   \<and> ''c'' \<notin> node_ids (snd (deleteNode ''c'' 9 example_store))"
proof -
  have a: "map edge_source (edges (run example_calls (empty_kg (\<lambda>i. i)))) = [''a'']"
    and b: "map edge_target (edges (run example_calls (empty_kg (\<lambda>i. i)))) = [''b'']"
    by code_simp+
  have d: "fst (deleteNode ''c'' 9 example_store) = Inr True"
    and e: "map edge_id (edges example_store) = [''e1'', ''e2'']"
    and f: "map edge_id (edges (snd (deleteNode ''c'' 9 example_store))) = [''e1'']"
    by code_simp+
  have "deleteNode ''c'' 9 example_store = (Inr True, snd (deleteNode ''c'' 9 example_store))"
    using d by (simp add: prod_eq_iff)
  with referential_integrity_holds [of example_calls "\<lambda>i. i"] a b d e f
  show ?thesis by blast
qed

section \<open>Deleting an absent node\<close>

text \<open>
  C8, as the code has it. For an id that no stored node has, \<^verbatim>\<open>deleteNode\<close> leaves the
  node collection and the edge collection as they are; it returns \<^verbatim>\<open>false\<close> when the
  id is a non-empty string, and throws \<^verbatim>\<open>Node ID is required\<close> when the id is empty.
\<close>

theorem deleteNode_absent:
  assumes "nodeId \<notin> node_ids st"
  shows "fst (deleteNode nodeId now st)
           = (if nodeId = [] then Inl (Error ''Node ID is required'') else Inr False)
       \<and> nodes (snd (deleteNode nodeId now st)) = nodes st
       \<and> edges (snd (deleteNode nodeId now st)) = edges st"
  using assms
  by (cases "nodeId = []")
     (simp_all add: deleteNode_def deleteKnowledgeNode_absent)

theorem deleteNode_absent_witness:
  "''zz'' \<notin> node_ids example_store
   \<and> fst (deleteNode ''zz'' 9 example_store) = Inr False
   \<and> nodes (snd (deleteNode ''zz'' 9 example_store)) = nodes example_store
   \<and> edges (snd (deleteNode ''zz'' 9 example_store)) = edges example_store"
proof -
  have h: "''zz'' \<notin> node_ids example_store"
    by code_simp
  from deleteNode_absent [OF h, of 9] h show ?thesis
    by simp
qed

theorem deleteNode_empty_id_counterexample:
  "[] \<notin> node_ids example_store
   \<and> fst (deleteNode [] 9 example_store) = Inl (Error ''Node ID is required'')"
  by code_simp

section \<open>\<^verbatim>\<open>addNode\<close> with \<^verbatim>\<open>autoConnect\<close>\<close>

lemma not_nonneg_findIndex:
  "k \<notin> f ` set xs \<Longrightarrow> \<not> 0 \<le> findIndex (\<lambda>m. f m = k) xs"
  using findIndex_nonneg [of "\<lambda>m. f m = k" xs] by (metis imageI nth_mem)

lemma saveKnowledgeNode_fresh:
  assumes "node_id n \<noteq> []" and "node_id n \<notin> node_ids st"
  shows "nodes (snd (saveKnowledgeNode n now st))
           = nodes st @ [n\<lparr>createdAt := Some now, updatedAt := Some now\<rparr>]"
  using assms not_nonneg_findIndex [of "node_id n" node_id "nodes st"]
  by (simp add: saveKnowledgeNode_def Let_def node_ids_def)

lemma saveKnowledgeNode_stored:
  assumes "node_id n \<noteq> []"
  shows "\<exists>m. m \<in> set (nodes (snd (saveKnowledgeNode n now st)))
             \<and> m\<lparr>createdAt := createdAt n, updatedAt := updatedAt n\<rparr> = n"
proof (cases "0 \<le> findIndex (\<lambda>m. node_id m = node_id n) (nodes st)")
  case True
  let ?i = "nat (findIndex (\<lambda>m. node_id m = node_id n) (nodes st))"
  let ?m = "merge_node (nodes st ! ?i) n now"
  have lt: "?i < length (nodes st)"
    using findIndex_nonneg [OF True] by simp
  have "nodes (snd (saveKnowledgeNode n now st)) = (nodes st)[?i := ?m]"
    using assms True by (simp add: saveKnowledgeNode_def Let_def)
  then have "?m \<in> set (nodes (snd (saveKnowledgeNode n now st)))"
    using lt by (simp add: set_update_memI)
  moreover have "?m\<lparr>createdAt := createdAt n, updatedAt := updatedAt n\<rparr> = n"
    by (simp add: merge_node_def)
  ultimately show ?thesis by blast
next
  case False
  let ?m = "n\<lparr>createdAt := Some now, updatedAt := Some now\<rparr>"
  have "nodes (snd (saveKnowledgeNode n now st)) = nodes st @ [?m]"
    using assms False by (simp add: saveKnowledgeNode_def Let_def)
  then have "?m \<in> set (nodes (snd (saveKnowledgeNode n now st)))"
    by simp
  moreover have "?m\<lparr>createdAt := createdAt n, updatedAt := updatedAt n\<rparr> = n"
    by simp
  ultimately show ?thesis by blast
qed

lemma assign_id_fields [simp]:
  "nodes (snd (assign_id d st)) = nodes st"
  "edges (snd (assign_id d st)) = edges st"
  "nodeMemo (snd (assign_id d st)) = nodeMemo st"
  by (simp_all add: assign_id_def)

text \<open>
  C10, as the code has it. When \<^verbatim>\<open>data.autoConnect\<close> contains an id that does not
  resolve to a node (\<^verbatim>\<open>getNode\<close> does not return one for it) and that is not the id of
  the node being added, \<^verbatim>\<open>addNode(data)\<close> throws, and the state it leaves behind
  holds the node collection exactly as \<^verbatim>\<open>saveKnowledgeNode\<close> wrote it before the
  error: the new node's data is stored under its id, and when that id was not stored
  before, the node collection is the old one with the new node appended, so the store has
  changed. The id of the node being added is excepted because the node is stored, and
  resolves, by the time its edges are made.
\<close>

theorem addNode_autoConnect_not_atomic:
  assumes "nd_autoConnect d = Some targets" and "t \<in> set targets"
    and "\<not> resolves t st" and "t \<noteq> fst (assign_id d st)"
  shows "(\<exists>e. fst (addNode (Some d) now st) = Inl e)
       \<and> nodes (snd (addNode (Some d) now st))
           = nodes (snd (saveKnowledgeNode (new_node d (fst (assign_id d st)) now) now
                          (snd (assign_id d st))))
       \<and> fst (assign_id d st) \<in> node_ids (snd (addNode (Some d) now st))
       \<and> (\<exists>m. m \<in> set (nodes (snd (addNode (Some d) now st)))
               \<and> m\<lparr>createdAt := None, updatedAt := None\<rparr>
                   = new_node d (fst (assign_id d st)) now)
       \<and> (fst (assign_id d st) \<notin> node_ids st \<longrightarrow>
            nodes (snd (addNode (Some d) now st))
              = nodes st @ [(new_node d (fst (assign_id d st)) now)
                              \<lparr>createdAt := Some now, updatedAt := Some now\<rparr>]
            \<and> nodes (snd (addNode (Some d) now st)) \<noteq> nodes st)"
proof -
  let ?id = "fst (assign_id d st)"
  let ?st0 = "snd (assign_id d st)"
  let ?n = "new_node d ?id now"
  let ?st1 = "snd (saveKnowledgeNode ?n now ?st0)"
  let ?st2 = "?st1\<lparr>nodeMemo := (nodeMemo ?st1)(?id \<mapsto> ?n)\<rparr>"
  let ?r = "autoConnect ?id targets now ?st2"
  have ne: "node_id ?n \<noteq> []"
    using assign_id_nonempty [of d st] by simp
  have ids0: "node_ids ?st0 = node_ids st"
    by (simp add: node_ids_def)
  have ids1: "node_ids ?st1 = insert ?id (node_ids st)"
    using saveKnowledgeNode_ok(4) [OF ne, of now ?st0] ids0 by simp
  have memo1: "nodeMemo ?st1 = nodeMemo st"
    using saveKnowledgeNode_ok(3) [OF ne, of now ?st0] by simp
  have "\<not> resolves t ?st2"
    using assms(3,4) by (simp add: resolves_iff ids1 memo1)
  with assms(2) have "\<exists>e. fst ?r = Inl e"
    by (rule autoConnect_unresolved)
  then obtain e where e: "fst ?r = Inl e" ..
  have unfold: "addNode (Some d) now st = (Inl e, snd ?r)"
    using assms(1) e by (simp add: addNode_unfold Let_def case_prod_beta)
  have "nodes (snd ?r) = nodes ?st2"
    using extends_autoConnect [of ?st2 ?id targets now] by (rule extends_nodes)
  then have nodes: "nodes (snd (addNode (Some d) now st)) = nodes ?st1"
    using unfold by simp
  have stored: "\<exists>m. m \<in> set (nodes ?st1) \<and> m\<lparr>createdAt := None, updatedAt := None\<rparr> = ?n"
    using saveKnowledgeNode_stored [OF ne, of now ?st0] by (simp add: new_node_def)
  have fresh: "nodes ?st1 = nodes st @ [?n\<lparr>createdAt := Some now, updatedAt := Some now\<rparr>]"
    if "?id \<notin> node_ids st"
    using saveKnowledgeNode_fresh [OF ne, of ?st0 now] that ids0 by simp
  have "?id \<in> node_ids (snd (addNode (Some d) now st))"
    using nodes ids1 by (simp add: node_ids_def)
  then show ?thesis
    using unfold nodes stored fresh by auto
qed

theorem addNode_autoConnect_not_atomic_witness:
  "nd_autoConnect dangling_input = Some [''zz''] \<and> ''zz'' \<in> set [''zz'']
   \<and> \<not> resolves ''zz'' example_store \<and> ''zz'' \<noteq> fst (assign_id dangling_input example_store)
   \<and> fst (assign_id dangling_input example_store) \<notin> node_ids example_store
   \<and> (\<exists>e. fst (addNode (Some dangling_input) 7 example_store) = Inl e)
   \<and> map node_id (nodes example_store) = [''a'', ''b'', ''c'', ''d'']
   \<and> map node_id (nodes (snd (addNode (Some dangling_input) 7 example_store)))
       = [''a'', ''b'', ''c'', ''d'', ''e'']"
proof -
  have h1: "nd_autoConnect dangling_input = Some [''zz'']"
    by (simp add: dangling_input_def)
  have h2: "''zz'' \<in> set [''zz'']"
    by simp
  have h3: "\<not> resolves ''zz'' example_store"
    and h4: "''zz'' \<noteq> fst (assign_id dangling_input example_store)"
    and f: "fst (assign_id dangling_input example_store) \<notin> node_ids example_store"
    and b: "map node_id (nodes example_store) = [''a'', ''b'', ''c'', ''d'']"
    and a: "map node_id (nodes (snd (addNode (Some dangling_input) 7 example_store)))
              = [''a'', ''b'', ''c'', ''d'', ''e'']"
    by code_simp+
  from addNode_autoConnect_not_atomic [OF h1 h2 h3 h4, of 7]
  have "\<exists>e. fst (addNode (Some dangling_input) 7 example_store) = Inl e"
    by blast
  with h1 h2 h3 h4 f b a show ?thesis
    by blast
qed

text \<open>
  The claim C10 as stated fails for the new node's own id: \<open>e\<close> does not resolve in the
  example store, yet \<^verbatim>\<open>addNode({id: 'e', autoConnect: ['e']})\<close> does not throw: it
  returns \<open>e\<close>, having stored the node and an edge from \<open>e\<close> to itself.
\<close>

theorem addNode_autoConnect_self_counterexample:
  "nd_id self_input = Some ''e'' \<and> nd_autoConnect self_input = Some [''e'']
   \<and> \<not> resolves ''e'' example_store
   \<and> fst (addNode (Some self_input) 7 example_store) = Inr ''e''
   \<and> map node_id (nodes (snd (addNode (Some self_input) 7 example_store)))
       = [''a'', ''b'', ''c'', ''d'', ''e'']
   \<and> map (\<lambda>e. (edge_source e, edge_target e, edge_type e))
         (edges (snd (addNode (Some self_input) 7 example_store)))
       = [(''a'', ''b'', ''related''), (''b'', ''c'', ''related''),
          (''e'', ''e'', ''auto-connected'')]"
  by code_simp

section \<open>Inputs on which the code departs from its specification\<close>

text \<open>
  C1. \<^verbatim>\<open>getConnectedNodes\<close> filters the stored edges down to those with the seed as
  source or target before the loop over the depth levels, and every level reads that
  filtered list. In the example store the edges are \<open>a \<rightarrow> b\<close> and \<open>b \<rightarrow> c\<close>, so \<open>c\<close> is
  two hops from \<open>a\<close>; with \<^verbatim>\<open>depth: 2\<close> the traversal from \<open>a\<close> returns \<open>b\<close> only.
\<close>

theorem traversal_second_hop_missing:
  "map edge_source (edges example_store) = [''a'', ''b'']
   \<and> map edge_target (edges example_store) = [''b'', ''c'']
   \<and> opt_depth depth_two = 2
   \<and> map (node_id \<circ> conn_node) (fst (getConnectedNodes ''a'' depth_two example_store)) = [''b'']
   \<and> map conn_depth (fst (getConnectedNodes ''a'' depth_two example_store)) = [1]"
  by code_simp

text \<open>
  C2. For a blank query the array \<^verbatim>\<open>results\<close> holds the stored nodes themselves,
  sorted by timestamp, but the returned elements are built from \<^verbatim>\<open>result.node\<close>,
  \<^verbatim>\<open>result.score\<close> and \<^verbatim>\<open>result.matchDetails\<close>, which a stored node does not
  have: every returned element is empty of node fields. A query with terms returns the
  nodes' fields.
\<close>

theorem blank_search_drops_node_fields:
  "map node_id (nodes example_store) = [''a'', ''b'', ''c'', ''d'']
   \<and> search example_host '''' default_search example_store
       = \<lparr>sr_total = 4, sr_offset = 0, sr_limit = 20,
          sr_results =
            replicate 4 \<lparr>hit_node = None, hit_score = None, hit_matchDetails = None\<rparr>\<rparr>
   \<and> sr_results (search example_host ''   '' default_search example_store)
       = replicate 4 \<lparr>hit_node = None, hit_score = None, hit_matchDetails = None\<rparr>
   \<and> map (map_option node_id \<circ> hit_node)
         (sr_results (search example_host ''rust'' default_search example_store))
       = [Some ''a'', Some ''c'']"
  by code_simp

text \<open>
  C3. With \<^verbatim>\<open>includeSelf\<close> the seed is pushed without a look at the limit, which is
  only read after an edge has been processed: with \<^verbatim>\<open>limit: 1\<close> the traversal from
  \<open>a\<close> returns two entries, the seed and \<open>b\<close>.
\<close>

theorem traversal_limit_exceeded:
  "opt_conn_limit self_limit_one = 1
   \<and> opt_includeSelf self_limit_one
   \<and> map (node_id \<circ> conn_node) (fst (getConnectedNodes ''a'' self_limit_one example_store))
       = [''a'', ''b'']
   \<and> length (fst (getConnectedNodes ''a'' self_limit_one example_store)) = 2"
  by code_simp

text \<open>
  C5. \<^verbatim>\<open>updateNode\<close> recomputes the preview when \<^verbatim>\<open>updates.content || updates.title\<close>
  is truthy, which an empty title is not: the update \<^verbatim>\<open>{title: ''}\<close> of node \<open>a\<close>
  succeeds, stores the empty title and keeps the preview of the old title, where
  \<^verbatim>\<open>generatePreview\<close> of the stored node gives \<^verbatim>\<open>Untitled\<close>.
\<close>

theorem updateNode_empty_title_stale_preview:
  "(case updateNode ''a'' clear_title 9 example_store of
      (Inr n, st') \<Rightarrow>
        title n = [] \<and> preview_title (preview n) = ''Rust Ownership''
        \<and> preview_title (node_preview n 9) = ''Untitled''
        \<and> map title (nodes st') = ['''', ''Go Concurrency'', ''Rust Traits'', ''Home'']
        \<and> map (preview_title \<circ> preview) (nodes st')
            = [''Rust Ownership'', ''Go Concurrency'', ''Rust Traits'', ''Home'']
    | (Inl e, st') \<Rightarrow> False)"
  by code_simp

section \<open>Traversal: what the result can hold\<close>

lemma process_edges_all:
  assumes "list_all Q (connectedNodes w)"
    and "\<And>e n dir. e \<in> set es \<Longrightarrow>
           Q \<lparr>conn_node = n, conn_edge = Some e, conn_depth = currentDepth,
              conn_direction = dir\<rparr>"
  shows "outcome_all Q (fst (process_edges currentId currentDepth limit es w st))"
  using assms
proof (induction es arbitrary: w st)
  case Nil
  then show ?case by (simp add: outcome_all_def)
next
  case (Cons e es)
  let ?c = "if edge_source e = currentId then edge_target e else edge_source e"
  have step: "outcome_all Q (fst (process_edges currentId currentDepth limit es w' st'))"
    if "list_all Q (connectedNodes w')" for w' st'
    using that Cons.prems(2) by (intro Cons.IH) simp_all
  show ?case
  proof (cases "?c \<in> set (visited w)")
    case True
    then show ?thesis using step [OF Cons.prems(1)] by (simp add: Let_def)
  next
    case False
    obtain r st1 where g: "getNode ?c st = (r, st1)"
      by (cases "getNode ?c st")
    show ?thesis
    proof (cases r)
      case (Inl err)
      then show ?thesis using False g by (simp add: Let_def outcome_all_def)
    next
      case (Inr found)
      let ?w1 = "w\<lparr>visited := visited w @ [?c]\<rparr>"
      let ?w2 = "case found of None \<Rightarrow> ?w1
                 | Some n \<Rightarrow>
                    ?w1\<lparr>connectedNodes := connectedNodes ?w1 @
                          [\<lparr>conn_node = n, conn_edge = Some e, conn_depth = currentDepth,
                            conn_direction =
                              Some (if edge_source e = currentId then ''out'' else ''in'')\<rparr>],
                        nextNodesToProcess := nextNodesToProcess ?w1 @ [?c]\<rparr>"
      have q2: "list_all Q (connectedNodes ?w2)"
        using Cons.prems by (cases found) simp_all
      show ?thesis
        using False g Inr q2 step [OF q2, of st1]
        by (simp add: Let_def outcome_all_def)
    qed
  qed
qed

lemma include_self_all:
  assumes "list_all Q (connectedNodes w)"
    and "\<And>n. Q \<lparr>conn_node = n, conn_edge = None, conn_depth = 0, conn_direction = None\<rparr>"
    and "include_self currentId w st = (Inr w1, st1)"
  shows "list_all Q (connectedNodes w1)"
  using assms
  by (auto simp: include_self_def split: prod.splits sum.splits option.splits)

lemma process_nodes_all:
  assumes "list_all Q (connectedNodes w)"
    and "\<And>e n dir. e \<in> set ces \<Longrightarrow>
           Q \<lparr>conn_node = n, conn_edge = Some e, conn_depth = currentDepth,
              conn_direction = dir\<rparr>"
    and "\<And>n. opt_includeSelf options \<Longrightarrow>
           Q \<lparr>conn_node = n, conn_edge = None, conn_depth = 0, conn_direction = None\<rparr>"
  shows "outcome_all Q (fst (process_nodes nodeId options ces currentDepth todo w st))"
  using assms(1)
proof (induction todo arbitrary: w st)
  case Nil
  then show ?case by (simp add: outcome_all_def)
next
  case (Cons currentId rest)
  let ?pre = "if opt_includeSelf options \<and> currentDepth = 1 \<and> currentId = nodeId
              then include_self currentId w st else (Inr w, st)"
  obtain r st1 where p: "?pre = (r, st1)"
    by (cases ?pre)
  show ?case
  proof (cases r)
    case (Inl err)
    then show ?thesis using p by (simp add: outcome_all_def)
  next
    case (Inr w1)
    have q1: "list_all Q (connectedNodes w1)"
    proof (cases "opt_includeSelf options \<and> currentDepth = 1 \<and> currentId = nodeId")
      case True
      then have "include_self currentId w st = (Inr w1, st1)"
        using p Inr by simp
      then show ?thesis
        using Cons.prems assms(3) True by (intro include_self_all [of Q w currentId st w1 st1]) simp_all
    next
      case False
      then show ?thesis using p Inr Cons.prems by auto
    qed
    let ?es = "filter (\<lambda>e. edge_source e = currentId \<or> edge_target e = currentId) ces"
    obtain out st2 where q:
      "process_edges currentId currentDepth (opt_conn_limit options) ?es w1 st1 = (out, st2)"
      by (cases "process_edges currentId currentDepth (opt_conn_limit options) ?es w1 st1")
    have o: "outcome_all Q out"
      using process_edges_all [of Q w1 ?es currentDepth currentId "opt_conn_limit options" st1]
        q1 assms(2) q by simp
    show ?thesis
    proof (cases out)
      case (Next w2)
      then have "list_all Q (connectedNodes w2)"
        using o by (simp add: outcome_all_def)
      then have "outcome_all Q (fst (process_nodes nodeId options ces currentDepth rest w2 st2))"
        by (rule Cons.IH)
      then show ?thesis using p Inr q Next by (simp add: Let_def)
    next
      case (Throw err)
      then show ?thesis using p Inr q o by (simp add: Let_def)
    next
      case (Return cs)
      then show ?thesis using p Inr q o by (simp add: Let_def)
    qed
  qed
qed

lemma levels_all:
  assumes "list_all Q (connectedNodes w)"
    and "\<And>e n dir d. e \<in> set ces \<Longrightarrow> currentDepth \<le> d \<Longrightarrow> d \<le> opt_depth options \<Longrightarrow>
           Q \<lparr>conn_node = n, conn_edge = Some e, conn_depth = d, conn_direction = dir\<rparr>"
    and "\<And>n. opt_includeSelf options \<Longrightarrow>
           Q \<lparr>conn_node = n, conn_edge = None, conn_depth = 0, conn_direction = None\<rparr>"
  shows "outcome_all Q (fst (levels nodeId options ces currentDepth todo w st))"
  using assms
proof (induction nodeId options ces currentDepth todo w st rule: levels.induct)
  case (1 nodeId options ces currentDepth nodesToProcess w st)
  show ?case
  proof (cases "currentDepth \<le> opt_depth options \<and> nodesToProcess \<noteq> []")
    case False
    then show ?thesis using "1.prems"(1) by (simp add: outcome_all_def)
  next
    case True
    let ?w = "w\<lparr>nextNodesToProcess := []\<rparr>"
    obtain out st1 where p:
      "process_nodes nodeId options ces currentDepth nodesToProcess ?w st = (out, st1)"
      by (cases "process_nodes nodeId options ces currentDepth nodesToProcess ?w st")
    have o: "outcome_all Q out"
      using process_nodes_all [of Q ?w ces currentDepth options nodeId nodesToProcess st]
        "1.prems" True p by simp
    show ?thesis
    proof (cases out)
      case (Next w1)
      have q1: "list_all Q (connectedNodes w1)"
        using o Next by (simp add: outcome_all_def)
      have "outcome_all Q (fst (levels nodeId options ces (currentDepth + 1)
                                  (nextNodesToProcess w1) w1 st1))"
        using "1.prems"(2,3) q1
        by (intro "1.IH" [OF True p [symmetric] Next]) simp_all
      then show ?thesis
        using True p Next by (subst levels.simps) (simp del: levels.simps)
    next
      case (Throw err)
      then show ?thesis using True p o by (subst levels.simps) (simp del: levels.simps)
    next
      case (Return cs)
      then show ?thesis using True p o by (subst levels.simps) (simp del: levels.simps)
    qed
  qed
qed

lemma getConnectedNodes_all:
  assumes "\<And>e n dir d. e \<in> set (connectedEdges nodeId options (edges st)) \<Longrightarrow>
             1 \<le> d \<Longrightarrow> d \<le> opt_depth options \<Longrightarrow>
             Q \<lparr>conn_node = n, conn_edge = Some e, conn_depth = d, conn_direction = dir\<rparr>"
    and "\<And>n. opt_includeSelf options \<Longrightarrow>
           Q \<lparr>conn_node = n, conn_edge = None, conn_depth = 0, conn_direction = None\<rparr>"
  shows "list_all Q (fst (getConnectedNodes nodeId options st))"
proof (cases "nodeId = []")
  case True
  then show ?thesis by (simp add: getConnectedNodes_def)
next
  case False
  let ?ces = "connectedEdges nodeId options (edges st)"
  let ?w0 = "\<lparr>visited = (if opt_includeSelf options then [] else [nodeId]),
             connectedNodes = [], nextNodesToProcess = []\<rparr>"
  obtain out st1 where l: "levels nodeId options ?ces 1 [nodeId] ?w0 st = (out, st1)"
    by (cases "levels nodeId options ?ces 1 [nodeId] ?w0 st")
  have "outcome_all Q (fst (levels nodeId options ?ces 1 [nodeId] ?w0 st))"
    using assms by (intro levels_all) simp_all
  then have "outcome_all Q out"
    using l by simp
  then show ?thesis
    using False l
    by (cases out) (simp_all add: getConnectedNodes_def Let_def outcome_all_def del: levels.simps)
qed

lemma connectedEdges_incident:
  "e \<in> set (connectedEdges nodeId options es) \<Longrightarrow>
   e \<in> set es \<and> (edge_source e = nodeId \<or> edge_target e = nodeId)"
  by (auto simp: connectedEdges_def split: if_splits)

text \<open>
  Every entry returned by \<^verbatim>\<open>getConnectedNodes\<close> is the seed itself (only with
  \<^verbatim>\<open>includeSelf\<close>, at depth 0 and without an edge) or carries a stored edge that has the
  seed as its source or target, at a depth between 1 and \<^verbatim>\<open>options.depth\<close>. So no
  entry is reached over an edge that does not touch the seed, whatever the depth.
\<close>

theorem traversal_entries:
  "list_all (\<lambda>c. seed_entry options c \<or> edge_entry nodeId options st c)
     (fst (getConnectedNodes nodeId options st))"
proof (rule getConnectedNodes_all)
  fix e n dir d
  assume "e \<in> set (connectedEdges nodeId options (edges st))"
    and "1 \<le> d" and "d \<le> opt_depth options"
  then show "seed_entry options
               \<lparr>conn_node = n, conn_edge = Some e, conn_depth = d, conn_direction = dir\<rparr>
             \<or> edge_entry nodeId options st
               \<lparr>conn_node = n, conn_edge = Some e, conn_depth = d, conn_direction = dir\<rparr>"
    using connectedEdges_incident [of e nodeId options "edges st"]
    by (simp add: edge_entry_def)
next
  fix n
  assume "opt_includeSelf options"
  then show "seed_entry options
               \<lparr>conn_node = n, conn_edge = None, conn_depth = 0, conn_direction = None\<rparr>
             \<or> edge_entry nodeId options st
               \<lparr>conn_node = n, conn_edge = None, conn_depth = 0, conn_direction = None\<rparr>"
    by (simp add: seed_entry_def)
qed

section \<open>Traversal: the limit\<close>

lemma process_edges_bounded:
  assumes "1 \<le> lmt" and "int (length (connectedNodes w)) \<le> max (lmt - 1) c"
  shows "outcome_bounded lmt c (fst (process_edges currentId currentDepth lmt es w st))"
  using assms(2)
proof (induction es arbitrary: w st)
  case Nil
  then show ?case by (simp add: outcome_bounded_def)
next
  case (Cons e es)
  let ?c = "if edge_source e = currentId then edge_target e else edge_source e"
  show ?case
  proof (cases "?c \<in> set (visited w)")
    case True
    then show ?thesis using Cons.IH [OF Cons.prems] by (simp add: Let_def)
  next
    case False
    obtain r st1 where g: "getNode ?c st = (r, st1)"
      by (cases "getNode ?c st")
    show ?thesis
    proof (cases r)
      case (Inl err)
      then show ?thesis using False g by (simp add: Let_def outcome_bounded_def)
    next
      case (Inr found)
      let ?w1 = "w\<lparr>visited := visited w @ [?c]\<rparr>"
      let ?w2 = "case found of None \<Rightarrow> ?w1
                 | Some n \<Rightarrow>
                    ?w1\<lparr>connectedNodes := connectedNodes ?w1 @
                          [\<lparr>conn_node = n, conn_edge = Some e, conn_depth = currentDepth,
                            conn_direction =
                              Some (if edge_source e = currentId then ''out'' else ''in'')\<rparr>],
                        nextNodesToProcess := nextNodesToProcess ?w1 @ [?c]\<rparr>"
      have len2: "int (length (connectedNodes ?w2)) \<le> max (lmt - 1) c + 1"
        using Cons.prems by (cases found) simp_all
      show ?thesis
      proof (cases "int (length (connectedNodes ?w2)) \<ge> lmt")
        case True
        have "int (length (connectedNodes ?w2)) \<le> max lmt (c + 1)"
          using len2 by (simp add: max_def split: if_splits)
        then show ?thesis
          using False g Inr True assms(1) by (simp add: Let_def outcome_bounded_def)
      next
        case below: False
        then have "int (length (connectedNodes ?w2)) \<le> max (lmt - 1) c"
          by (simp add: max_def)
        then have "outcome_bounded lmt c
                     (fst (process_edges currentId currentDepth lmt es ?w2 st1))"
          by (rule Cons.IH)
        then show ?thesis
          using False g Inr below by (simp add: Let_def)
      qed
    qed
  qed
qed

lemma process_nodes_bounded:
  assumes "1 \<le> opt_conn_limit options"
    and "\<not> (opt_includeSelf options \<and> currentDepth = 1)"
    and "int (length (connectedNodes w)) \<le> max (opt_conn_limit options - 1) c"
  shows "outcome_bounded (opt_conn_limit options) c
           (fst (process_nodes nodeId options ces currentDepth todo w st))"
  using assms(3)
proof (induction todo arbitrary: w st)
  case Nil
  then show ?case by (simp add: outcome_bounded_def)
next
  case (Cons currentId rest)
  let ?es = "filter (\<lambda>e. edge_source e = currentId \<or> edge_target e = currentId) ces"
  obtain out st2 where q:
    "process_edges currentId currentDepth (opt_conn_limit options) ?es w st = (out, st2)"
    by (cases "process_edges currentId currentDepth (opt_conn_limit options) ?es w st")
  have o: "outcome_bounded (opt_conn_limit options) c out"
    using process_edges_bounded [OF assms(1) Cons.prems, of currentId currentDepth ?es st] q
    by simp
  show ?case
  proof (cases out)
    case (Next w2)
    then have "int (length (connectedNodes w2)) \<le> max (opt_conn_limit options - 1) c"
      using o by (simp add: outcome_bounded_def)
    then have "outcome_bounded (opt_conn_limit options) c
                 (fst (process_nodes nodeId options ces currentDepth rest w2 st2))"
      by (rule Cons.IH)
    then show ?thesis using assms(2) q Next by (auto simp: Let_def)
  next
    case (Throw err)
    then show ?thesis using assms(2) q o by (auto simp: Let_def)
  next
    case (Return cs)
    then show ?thesis using assms(2) q o by (auto simp: Let_def)
  qed
qed

lemma levels_bounded:
  assumes "1 \<le> opt_conn_limit options"
    and "\<not> (opt_includeSelf options \<and> currentDepth \<le> 1)"
    and "int (length (connectedNodes w)) \<le> max (opt_conn_limit options - 1) c"
  shows "outcome_bounded (opt_conn_limit options) c
           (fst (levels nodeId options ces currentDepth todo w st))"
  using assms
proof (induction nodeId options ces currentDepth todo w st rule: levels.induct)
  case (1 nodeId options ces currentDepth nodesToProcess w st)
  have fin: "outcome_bounded (opt_conn_limit options) c (Return (connectedNodes w))"
    using "1.prems"(3) by (simp add: outcome_bounded_def max_def split: if_splits)
  show ?case
  proof (cases "currentDepth \<le> opt_depth options \<and> nodesToProcess \<noteq> []")
    case False
    then show ?thesis using fin by simp
  next
    case True
    let ?w = "w\<lparr>nextNodesToProcess := []\<rparr>"
    obtain out st1 where p:
      "process_nodes nodeId options ces currentDepth nodesToProcess ?w st = (out, st1)"
      by (cases "process_nodes nodeId options ces currentDepth nodesToProcess ?w st")
    have o: "outcome_bounded (opt_conn_limit options) c out"
      using process_nodes_bounded [of options currentDepth ?w c nodeId ces nodesToProcess st]
        "1.prems" p by auto
    show ?thesis
    proof (cases out)
      case (Next w1)
      have q1: "int (length (connectedNodes w1)) \<le> max (opt_conn_limit options - 1) c"
        using o Next by (simp add: outcome_bounded_def)
      have "outcome_bounded (opt_conn_limit options) c
              (fst (levels nodeId options ces (currentDepth + 1) (nextNodesToProcess w1) w1 st1))"
        using "1.prems"(1,2) q1
        by (intro "1.IH" [OF True p [symmetric] Next]) auto
      then show ?thesis
        using True p Next by (subst levels.simps) (simp del: levels.simps)
    next
      case (Throw err)
      then show ?thesis using True p o by (subst levels.simps) (simp del: levels.simps)
    next
      case (Return cs)
      then show ?thesis using True p o by (subst levels.simps) (simp del: levels.simps)
    qed
  qed
qed

lemma outcome_bounded_result:
  assumes "outcome_bounded lmt c out" and "0 \<le> c"
  shows "int (length (case out of Return cs \<Rightarrow> cs | Next w \<Rightarrow> connectedNodes w | Throw err \<Rightarrow> []))
           \<le> max lmt (c + 1)"
  using assms by (cases out) (auto simp: outcome_bounded_def max_def split: if_splits)

lemma getConnectedNodes_result:
  "nodeId \<noteq> [] \<Longrightarrow>
   fst (getConnectedNodes nodeId options st) =
     (case fst (levels nodeId options (connectedEdges nodeId options (edges st)) 1 [nodeId]
                  \<lparr>visited = (if opt_includeSelf options then [] else [nodeId]),
                   connectedNodes = [], nextNodesToProcess = []\<rparr> st) of
        Return cs \<Rightarrow> cs | Next w \<Rightarrow> connectedNodes w | Throw err \<Rightarrow> [])"
  by (simp add: getConnectedNodes_def Let_def case_prod_beta del: levels.simps
        split: outcome.splits)

lemma first_level_bounded:
  assumes "1 \<le> opt_conn_limit options" and "opt_includeSelf options"
  shows "outcome_bounded (opt_conn_limit options) 1
           (fst (levels nodeId options ces 1 [nodeId]
                   \<lparr>visited = [], connectedNodes = [], nextNodesToProcess = []\<rparr> st))"
proof (cases "1 \<le> opt_depth options")
  case False
  then show ?thesis by (simp add: outcome_bounded_def)
next
  case True
  let ?w0 = "\<lparr>visited = [], connectedNodes = [], nextNodesToProcess = []\<rparr>"
  let ?es = "filter (\<lambda>e. edge_source e = nodeId \<or> edge_target e = nodeId) ces"
  obtain r st1 where s: "include_self nodeId ?w0 st = (r, st1)"
    by (cases "include_self nodeId ?w0 st")
  show ?thesis
  proof (cases r)
    case (Inl err)
    then show ?thesis
      using True s assms(2)
      by (subst levels.simps) (simp add: outcome_bounded_def del: levels.simps)
  next
    case (Inr w1)
    have len1: "int (length (connectedNodes w1)) \<le> max (opt_conn_limit options - 1) 1"
      using s Inr
      by (auto simp: include_self_def split: prod.splits sum.splits option.splits)
    obtain out st2 where q:
      "process_edges nodeId 1 (opt_conn_limit options) ?es w1 st1 = (out, st2)"
      by (cases "process_edges nodeId 1 (opt_conn_limit options) ?es w1 st1")
    have o: "outcome_bounded (opt_conn_limit options) 1 out"
      using process_edges_bounded [OF assms(1) len1, of nodeId 1 ?es st1] q by simp
    show ?thesis
    proof (cases out)
      case (Next w2)
      have "int (length (connectedNodes w2)) \<le> max (opt_conn_limit options - 1) 1"
        using o Next by (simp add: outcome_bounded_def)
      then have "outcome_bounded (opt_conn_limit options) 1
                   (fst (levels nodeId options ces 2 (nextNodesToProcess w2) w2 st2))"
        using assms(1) by (intro levels_bounded) simp_all
      then show ?thesis
        using True s Inr q Next assms(2)
        by (subst levels.simps) (simp add: Let_def del: levels.simps)
    next
      case (Throw err)
      then show ?thesis
        using True s Inr q o assms(2)
        by (subst levels.simps) (simp add: Let_def del: levels.simps)
    next
      case (Return cs)
      then show ?thesis
        using True s Inr q o assms(2)
        by (subst levels.simps) (simp add: Let_def del: levels.simps)
    qed
  qed
qed

text \<open>
  For a limit \<open>K \<ge> 1\<close> the result of \<^verbatim>\<open>getConnectedNodes\<close> has at most \<open>K\<close> entries
  without \<^verbatim>\<open>includeSelf\<close>, and at most \<open>max K 2\<close> entries with it: the limit is
  exceeded only by the seed's own entry, when \<open>K = 1\<close>.
\<close>

theorem traversal_limit_bound:
  assumes "1 \<le> opt_conn_limit options"
  shows "int (length (fst (getConnectedNodes nodeId options st)))
           \<le> max (opt_conn_limit options) (if opt_includeSelf options then 2 else 1)"
proof (cases "nodeId = []")
  case True
  then show ?thesis using assms by (simp add: getConnectedNodes_def)
next
  case False
  let ?ces = "connectedEdges nodeId options (edges st)"
  show ?thesis
  proof (cases "opt_includeSelf options")
    case True
    have "outcome_bounded (opt_conn_limit options) 1
            (fst (levels nodeId options ?ces 1 [nodeId]
                    \<lparr>visited = [], connectedNodes = [], nextNodesToProcess = []\<rparr> st))"
      using assms True by (rule first_level_bounded)
    from outcome_bounded_result [OF this zero_le_one] show ?thesis
      using False True by (simp add: getConnectedNodes_result del: levels.simps)
  next
    case no_self: False
    have "outcome_bounded (opt_conn_limit options) 0
            (fst (levels nodeId options ?ces 1 [nodeId]
                    \<lparr>visited = [nodeId], connectedNodes = [], nextNodesToProcess = []\<rparr> st))"
      using assms no_self by (intro levels_bounded) simp_all
    from outcome_bounded_result [OF this order_refl] show ?thesis
      using False no_self by (simp add: getConnectedNodes_result del: levels.simps)
  qed
qed

theorem traversal_limit_bound_witness:
  "1 \<le> opt_conn_limit limit_one \<and> opt_includeSelf limit_one = False
   \<and> map edge_id (edges example_store) = [''e1'', ''e2'']
   \<and> int (length (fst (getConnectedNodes ''b'' limit_one example_store))) \<le> 1
   \<and> map (node_id \<circ> conn_node) (fst (getConnectedNodes ''b'' limit_one example_store)) = [''a'']"
proof -
  have h: "1 \<le> opt_conn_limit limit_one"
    and l: "opt_conn_limit limit_one = 1"
    and s: "opt_includeSelf limit_one = False"
    and e: "map edge_id (edges example_store) = [''e1'', ''e2'']"
    and r: "map (node_id \<circ> conn_node) (fst (getConnectedNodes ''b'' limit_one example_store))
              = [''a'']"
    by code_simp+
  from traversal_limit_bound [OF h, of "''b''" example_store] l s
  have "int (length (fst (getConnectedNodes ''b'' limit_one example_store))) \<le> 1"
    by simp
  with h s e r show ?thesis
    by blast
qed

section \<open>Search: the blank query\<close>

lemma sort_cmp_equal:
  assumes "\<And>a b. a \<in> set xs \<Longrightarrow> b \<in> set xs \<Longrightarrow> cmp a b \<le> 0"
  shows "sort_cmp cmp xs = xs"
  using assms
proof (induction xs)
  case Nil
  then show ?case by (simp add: sort_cmp_def)
next
  case (Cons x xs)
  have "sort_cmp cmp xs = xs"
    using Cons.prems by (intro Cons.IH) simp_all
  then have "sort_cmp cmp (x # xs) = insort_cmp cmp x xs"
    by (simp add: sort_cmp_def)
  also have "\<dots> = x # xs"
    using Cons.prems by (cases xs) simp_all
  finally show ?case .
qed

lemma split_on_nonempty: "split_on sep cur s \<noteq> []"
  by (induction s arbitrary: cur) auto

lemma sort_value_Raw: "sort_value h (Raw n) sortBy = Num 0"
proof -
  obtain p ps where "split_on CHR ''.'' [] sortBy = p # ps"
    using split_on_nonempty [of "CHR ''.''" "[]" sortBy] by (cases "split_on CHR ''.'' [] sortBy") auto
  then show ?thesis
    by (simp add: sort_value_def getNestedProperty_def js_truthy_def)
qed

lemma field_cmp_Raw: "field_cmp h sortBy ord (Raw a) (Raw b) = 0"
  by (simp add: field_cmp_def sort_value_Raw to_number_def)

lemma mset_insort_cmp: "mset (insort_cmp cmp x xs) = add_mset x (mset xs)"
  by (induction xs) auto

lemma mset_sort_cmp: "mset (sort_cmp cmp xs) = mset xs"
  by (induction xs) (simp_all add: sort_cmp_def mset_insort_cmp)

lemma set_insort_cmp: "set (insort_cmp cmp x xs) = insert x (set xs)"
  by (induction xs) auto

lemma sorted_insort_desc:
  assumes "sorted_wrt (\<lambda>a b. k b \<le> k a) xs"
  shows "sorted_wrt (\<lambda>a b. k b \<le> k a)
           (insort_cmp (\<lambda>a b. of_int (k b) - of_int (k a)) x xs)"
  using assms
proof (induction xs)
  case Nil
  then show ?case by simp
next
  case (Cons y ys)
  show ?case
  proof (cases "k y \<le> k x")
    case True
    then have "\<forall>z \<in> set ys. k z \<le> k x"
      using Cons.prems by fastforce
    then show ?thesis using True Cons.prems by simp
  next
    case False
    then have "sorted_wrt (\<lambda>a b. k b \<le> k a)
                 (insort_cmp (\<lambda>a b. of_int (k b) - of_int (k a)) x ys)"
      using Cons by simp
    then show ?thesis
      using False Cons.prems by (auto simp: set_insort_cmp)
  qed
qed

lemma sorted_sort_desc:
  "sorted_wrt (\<lambda>a b. k b \<le> k a) (sort_cmp (\<lambda>a b. of_int (k b) - of_int (k a)) xs)"
  by (induction xs) (simp_all add: sort_cmp_def sorted_insort_desc)

lemma sorted_results_blank:
  assumes "is_blank q"
  shows "sorted_results h q options ns
           = map Raw (sort_cmp (\<lambda>a b. of_int (timestamp b) - of_int (timestamp a)) ns)"
proof -
  let ?rs = "map Raw (sort_cmp (\<lambda>a b. of_int (timestamp b) - of_int (timestamp a)) ns)"
  have "sort_cmp (field_cmp h sortBy ord) ?rs = ?rs" for sortBy ord
    by (rule sort_cmp_equal) (auto simp: field_cmp_Raw)
  then show ?thesis
    using assms by (simp add: sorted_results_def matched_def Let_def)
qed

text \<open>
  For a blank query, whatever the options: \<^verbatim>\<open>total\<close> is the number of stored nodes;
  the array that is paginated holds exactly the stored nodes, in descending order of
  timestamp (a sort by a named field leaves it as it is, since no element has a property
  \<^verbatim>\<open>node\<close>); and every returned element is without node fields, score and match
  details.
\<close>

theorem blank_search_result:
  assumes "is_blank q"
  shows "sr_total (search h q options st) = length (nodes st)
       \<and> sorted_results h q options (nodes st)
           = map Raw (sort_cmp (\<lambda>a b. of_int (timestamp b) - of_int (timestamp a)) (nodes st))
       \<and> mset (sort_cmp (\<lambda>a b. of_int (timestamp b) - of_int (timestamp a)) (nodes st))
           = mset (nodes st)
       \<and> sorted_wrt (\<lambda>a b. timestamp b \<le> timestamp a)
           (sort_cmp (\<lambda>a b. of_int (timestamp b) - of_int (timestamp a)) (nodes st))
       \<and> list_all (\<lambda>x. x = \<lparr>hit_node = None, hit_score = None, hit_matchDetails = None\<rparr>)
           (sr_results (search h q options st))"
proof -
  let ?sorted = "sort_cmp (\<lambda>a b. of_int (timestamp b) - of_int (timestamp a)) (nodes st)"
  have rs: "sorted_results h q options (nodes st) = map Raw ?sorted"
    using assms by (rule sorted_results_blank)
  have "list_all (\<lambda>x. x = \<lparr>hit_node = None, hit_score = None, hit_matchDetails = None\<rparr>)
          (map format_hit (js_slice (map Raw ?sorted) a b))" for a b
    by (auto simp: list_all_iff js_slice_def Let_def format_hit_def
          dest!: in_set_takeD in_set_dropD)
  then show ?thesis
    using rs mset_sort_cmp [of _ "nodes st"] sorted_sort_desc [of timestamp "nodes st"]
    by (simp add: search_def Let_def length_sort_cmp)
qed

theorem blank_search_result_witness:
  "is_blank ''  ''
   \<and> sr_total (search example_host ''  '' (paged 2 1) example_store) = 4
   \<and> map node_id (sort_cmp (\<lambda>a b. of_int (timestamp b) - of_int (timestamp a))
                     (nodes example_store)) = [''d'', ''c'', ''b'', ''a'']
   \<and> sr_results (search example_host ''  '' (paged 2 1) example_store)
       = replicate 2 \<lparr>hit_node = None, hit_score = None, hit_matchDetails = None\<rparr>"
proof -
  have h: "is_blank ''  ''"
    and o: "map node_id (sort_cmp (\<lambda>a b. of_int (timestamp b) - of_int (timestamp a))
                     (nodes example_store)) = [''d'', ''c'', ''b'', ''a'']"
    and r: "sr_results (search example_host ''  '' (paged 2 1) example_store)
       = replicate 2 \<lparr>hit_node = None, hit_score = None, hit_matchDetails = None\<rparr>"
    and n: "length (nodes example_store) = 4"
    by code_simp+
  from blank_search_result [OF h, of example_host "paged 2 1" example_store] n
  have "sr_total (search example_host ''  '' (paged 2 1) example_store) = 4"
    by simp
  with h o r show ?thesis
    by blast
qed

section \<open>\<^verbatim>\<open>updateNode\<close>: when the preview is recomputed\<close>

lemma node_preview_preview [simp]: "node_preview (n\<lparr>preview := p\<rparr>) now = node_preview n now"
  by (simp add: node_preview_def)

text \<open>
  When \<^verbatim>\<open>updates\<close> holds a content object or a non-empty title, a successful
  \<^verbatim>\<open>updateNode\<close> returns a node whose preview is \<^verbatim>\<open>generatePreview\<close> of that node,
  caches it, and stores it (up to the storage manager's \<^verbatim>\<open>createdAt\<close> and
  \<^verbatim>\<open>updatedAt\<close>).
\<close>

theorem updateNode_preview_recomputed:
  assumes "truthy_obj (up_content updates) \<or> truthy_str (up_title updates)"
    and "updateNode nodeId updates now st = (Inr n, st')"
  shows "preview n = node_preview n now
       \<and> nodeMemo st' nodeId = Some n
       \<and> (\<exists>m. m \<in> set (nodes st')
               \<and> m\<lparr>createdAt := createdAt n, updatedAt := updatedAt n\<rparr> = n)"
proof -
  have ne: "nodeId \<noteq> []"
    using assms(2) by (auto simp: updateNode_def)
  obtain r st1 where g: "getNode nodeId st = (r, st1)"
    by (cases "getNode nodeId st")
  have "\<exists>old. r = Inr (Some old)"
    using assms(2) ne g by (auto simp: updateNode_def split: sum.splits option.splits)
  then obtain old where r: "r = Inr (Some old)" ..
  let ?merged = "apply_updates old updates nodeId now"
  let ?u = "?merged\<lparr>preview := node_preview ?merged now\<rparr>"
  have idu: "node_id ?u \<noteq> []"
    using ne by (simp add: apply_updates_def)
  have ok: "fst (saveKnowledgeNode ?u now st1) = Inr True"
    using idu by (rule saveKnowledgeNode_ok(1))
  have res: "updateNode nodeId updates now st
          = (Inr ?u, (snd (saveKnowledgeNode ?u now st1))
               \<lparr>nodeMemo := (nodeMemo (snd (saveKnowledgeNode ?u now st1)))(nodeId \<mapsto> ?u)\<rparr>)"
    using ne g r ok assms(1)
    by (simp add: updateNode_def Let_def case_prod_beta)
  then have n: "n = ?u"
    and st': "st' = (snd (saveKnowledgeNode ?u now st1))
               \<lparr>nodeMemo := (nodeMemo (snd (saveKnowledgeNode ?u now st1)))(nodeId \<mapsto> ?u)\<rparr>"
    using assms(2) by simp_all
  have "preview n = node_preview n now"
    by (simp add: n)
  moreover have "nodeMemo st' nodeId = Some n"
    by (simp add: st' n)
  moreover have "\<exists>m. m \<in> set (nodes st')
               \<and> m\<lparr>createdAt := createdAt n, updatedAt := updatedAt n\<rparr> = n"
    using saveKnowledgeNode_stored [OF idu, of now st1] by (simp add: st' n)
  ultimately show ?thesis by blast
qed

theorem updateNode_preview_recomputed_witness:
  "(truthy_obj (up_content retitle) \<or> truthy_str (up_title retitle))
   \<and> title (projr (fst (updateNode ''a'' retitle 9 example_store))) = ''Rust Borrowing''
   \<and> preview_title (preview (projr (fst (updateNode ''a'' retitle 9 example_store))))
       = ''Rust Borrowing''
   \<and> preview (projr (fst (updateNode ''a'' retitle 9 example_store)))
       = node_preview (projr (fst (updateNode ''a'' retitle 9 example_store))) 9"
proof -
  let ?U = "updateNode ''a'' retitle 9 example_store"
  have h: "truthy_obj (up_content retitle) \<or> truthy_str (up_title retitle)"
    and ok: "isl (fst ?U) = False"
    and t: "title (projr (fst ?U)) = ''Rust Borrowing''"
    and p: "preview_title (preview (projr (fst ?U))) = ''Rust Borrowing''"
    by code_simp+
  have "?U = (Inr (projr (fst ?U)), snd ?U)"
    using ok by (cases ?U, cases "fst ?U") simp_all
  from updateNode_preview_recomputed [OF h this] h t p show ?thesis
    by blast
qed

section \<open>Search: the default fields\<close>

lemma node_score_url:
  "node_score searched queryTerms n
     = node_score searched queryTerms (n\<lparr>url := None\<rparr>) + of_nat (url_match searched queryTerms n)"
  by (simp add: node_score_def title_score_def summary_score_def text_match_def
        entity_match_def category_match_def tag_match_def url_match_def truthy_str_def)

lemma set_sort_cmp: "set (sort_cmp cmp xs) = set xs"
  using mset_sort_cmp [of cmp xs] by (rule mset_eq_setD)

lemma matched_scored:
  "\<not> is_blank query \<Longrightarrow>
   set (matched query options ns)
     = (\<lambda>m. Scored \<lparr>sc_node = m,
                     sc_score = node_score (opt_searchIn options) (query_terms query) m,
                     sc_matchDetails
                       = node_matchDetails (opt_searchIn options) (query_terms query) m\<rparr>)
       ` {m \<in> set ns. 0 < node_score (opt_searchIn options) (query_terms query) m}"
  by (auto simp: matched_def set_sort_cmp score_nodes_def)

lemma sorted_results_set:
  "set (sorted_results h query options ns) = set (matched query options ns)"
  by (simp add: sorted_results_def Let_def set_sort_cmp)

lemma sorted_results_scored:
  assumes "\<not> is_blank query"
  shows "set (sorted_results h query options ns)
     = (\<lambda>m. Scored \<lparr>sc_node = m,
                     sc_score = node_score (opt_searchIn options) (query_terms query) m,
                     sc_matchDetails
                       = node_matchDetails (opt_searchIn options) (query_terms query) m\<rparr>)
       ` {m \<in> set ns. 0 < node_score (opt_searchIn options) (query_terms query) m}"
  using matched_scored [OF assms] by (simp add: sorted_results_set)

lemma sorted_results_count:
  assumes "\<not> is_blank query"
  shows "length (sorted_results h query options ns)
     = length (filter (\<lambda>m. 0 < node_score (opt_searchIn options) (query_terms query) m) ns)"
proof -
  have "length (matched query options ns)
      = length (filter (\<lambda>m. 0 < node_score (opt_searchIn options) (query_terms query) m) ns)"
    using assms by (simp add: matched_def length_sort_cmp score_nodes_def filter_map o_def)
  then show ?thesis
    by (simp add: sorted_results_def Let_def length_sort_cmp)
qed

lemma set_js_slice: "set (js_slice xs a b) \<subseteq> set xs"
  unfolding js_slice_def Let_def
  by (meson set_take_subset set_drop_subset subset_trans)

lemma search_hits:
  assumes "\<not> is_blank query" and "r \<in> set (sr_results (search h query options st))"
  shows "\<exists>m \<in> set (nodes st).
           hit_node r = Some m
           \<and> hit_score r = Some (node_score (opt_searchIn options) (query_terms query) m)
           \<and> 0 < node_score (opt_searchIn options) (query_terms query) m"
proof -
  from assms(2) obtain x where x: "x \<in> set (sorted_results h query options (nodes st))"
    and r: "r = format_hit x"
    using set_js_slice [of "sorted_results h query options (nodes st)"]
    by (auto simp: search_def Let_def)
  from x obtain m where m: "m \<in> set (nodes st)"
    and pos: "0 < node_score (opt_searchIn options) (query_terms query) m"
    and xm: "x = Scored \<lparr>sc_node = m,
                 sc_score = node_score (opt_searchIn options) (query_terms query) m,
                 sc_matchDetails
                   = node_matchDetails (opt_searchIn options) (query_terms query) m\<rparr>"
    unfolding sorted_results_scored [OF assms(1)] by auto
  show ?thesis
    using m pos by (intro bexI [of _ m]) (simp_all add: r xm format_hit_def)
qed

text \<open>
  C6, as the code has it. Without a \<^verbatim>\<open>searchIn\<close> option the searched fields are
  \<^verbatim>\<open>['title','content','categories','tags']\<close>: the url is not searched and adds nothing
  to the score. The url counts, with weight 1 for each query term it contains, when
  \<^verbatim>\<open>searchIn\<close> names \<^verbatim>\<open>'url'\<close>, and only then: for any other list of fields it adds
  nothing. For a query that is not blank, \<^verbatim>\<open>search\<close> finds the stored nodes of
  positive score: \<^verbatim>\<open>total\<close> is their number, the results before pagination are
  theirs, and every returned element carries such a node with its score. So without
  \<^verbatim>\<open>searchIn\<close> a node is found only if it matches with its url taken away, and a node
  whose only match is in its url is not found; when \<^verbatim>\<open>searchIn\<close> names \<^verbatim>\<open>'url'\<close>,
  a stored node whose url contains a query term is found.
\<close>

theorem search_default_fields:
  "(so_searchIn options = None \<longrightarrow>
      opt_searchIn options = [''title'', ''content'', ''categories'', ''tags'']
      \<and> url_match (opt_searchIn options) queryTerms n = 0
      \<and> node_score (opt_searchIn options) queryTerms n
          = node_score (opt_searchIn options) queryTerms (n\<lparr>url := None\<rparr>))
   \<and> node_score searched queryTerms n
       = node_score searched queryTerms (n\<lparr>url := None\<rparr>) + of_nat (url_match searched queryTerms n)
   \<and> (''url'' \<in> set searched \<and> truthy_str (url n) \<longrightarrow>
        url_match searched queryTerms n = term_matches queryTerms (the (url n)))
   \<and> (''url'' \<notin> set searched \<longrightarrow>
        url_match searched queryTerms n = 0
        \<and> node_score searched queryTerms n = node_score searched queryTerms (n\<lparr>url := None\<rparr>))
   \<and> (\<not> is_blank query \<longrightarrow>
        sr_total (search h query options st)
          = length (filter (\<lambda>m. 0 < node_score (opt_searchIn options) (query_terms query) m)
                      (nodes st))
        \<and> item_node ` set (sorted_results h query options (nodes st))
            = Some ` {m \<in> set (nodes st).
                        0 < node_score (opt_searchIn options) (query_terms query) m}
        \<and> (\<forall>r \<in> set (sr_results (search h query options st)).
              \<exists>m \<in> set (nodes st).
                hit_node r = Some m
                \<and> hit_score r = Some (node_score (opt_searchIn options) (query_terms query) m)
                \<and> 0 < node_score (opt_searchIn options) (query_terms query) m))
   \<and> (\<not> is_blank query \<and> so_searchIn options = None \<longrightarrow>
        sr_total (search h query options st)
          = length (filter (\<lambda>m. 0 < node_score [''title'', ''content'', ''categories'', ''tags'']
                                     (query_terms query) (m\<lparr>url := None\<rparr>)) (nodes st))
        \<and> (\<forall>m. Some m \<in> item_node ` set (sorted_results h query options (nodes st))
                \<longleftrightarrow> m \<in> set (nodes st)
                    \<and> 0 < node_score [''title'', ''content'', ''categories'', ''tags'']
                            (query_terms query) (m\<lparr>url := None\<rparr>))
        \<and> (\<forall>r \<in> set (sr_results (search h query options st)).
              \<exists>m \<in> set (nodes st).
                hit_node r = Some m
                \<and> 0 < node_score [''title'', ''content'', ''categories'', ''tags'']
                        (query_terms query) (m\<lparr>url := None\<rparr>)))
   \<and> (\<not> is_blank query \<and> ''url'' \<in> set (opt_searchIn options) \<and> n \<in> set (nodes st)
        \<and> truthy_str (url n) \<and> 0 < term_matches (query_terms query) (the (url n)) \<longrightarrow>
        Some n \<in> item_node ` set (sorted_results h query options (nodes st)))"
proof -
  let ?d = "[''title'', ''content'', ''categories'', ''tags'']"
  have zero: "url_match searched' terms m = 0" if "''url'' \<notin> set searched'" for searched' terms m
    using that by (simp add: url_match_def)
  have same: "node_score searched' terms m = node_score searched' terms (m\<lparr>url := None\<rparr>)"
    if "''url'' \<notin> set searched'" for searched' terms m
    using node_score_url [of searched' terms m] zero [OF that, of terms m] by simp
  have dflt: "opt_searchIn options = ?d" if "so_searchIn options = None"
    using that by (simp add: opt_searchIn_def or_obj_def)
  have d_url: "''url'' \<notin> set ?d"
    by simp
  have c1: "so_searchIn options = None \<longrightarrow>
      opt_searchIn options = ?d
      \<and> url_match (opt_searchIn options) queryTerms n = 0
      \<and> node_score (opt_searchIn options) queryTerms n
          = node_score (opt_searchIn options) queryTerms (n\<lparr>url := None\<rparr>)"
    using dflt zero [OF d_url] same [OF d_url] by simp
  have c2: "node_score searched queryTerms n
       = node_score searched queryTerms (n\<lparr>url := None\<rparr>) + of_nat (url_match searched queryTerms n)"
    by (rule node_score_url)
  have c3: "''url'' \<in> set searched \<and> truthy_str (url n) \<longrightarrow>
        url_match searched queryTerms n = term_matches queryTerms (the (url n))"
    by (simp add: url_match_def)
  have c4: "''url'' \<notin> set searched \<longrightarrow>
        url_match searched queryTerms n = 0
        \<and> node_score searched queryTerms n = node_score searched queryTerms (n\<lparr>url := None\<rparr>)"
    using zero [of searched queryTerms n] same [of searched queryTerms n] by simp
  have total: "sr_total (search h query options st)
      = length (filter (\<lambda>m. 0 < node_score (opt_searchIn options) (query_terms query) m)
                  (nodes st))" if "\<not> is_blank query"
    using sorted_results_count [OF that, of h options "nodes st"]
    by (simp add: search_def Let_def)
  have found: "item_node ` set (sorted_results h query options (nodes st))
      = Some ` {m \<in> set (nodes st). 0 < node_score (opt_searchIn options) (query_terms query) m}"
    if "\<not> is_blank query"
    unfolding sorted_results_scored [OF that] by (simp add: image_image)
  have c5: "\<not> is_blank query \<longrightarrow>
        sr_total (search h query options st)
          = length (filter (\<lambda>m. 0 < node_score (opt_searchIn options) (query_terms query) m)
                      (nodes st))
        \<and> item_node ` set (sorted_results h query options (nodes st))
            = Some ` {m \<in> set (nodes st).
                        0 < node_score (opt_searchIn options) (query_terms query) m}
        \<and> (\<forall>r \<in> set (sr_results (search h query options st)).
              \<exists>m \<in> set (nodes st).
                hit_node r = Some m
                \<and> hit_score r = Some (node_score (opt_searchIn options) (query_terms query) m)
                \<and> 0 < node_score (opt_searchIn options) (query_terms query) m)"
    using total found search_hits [of query _ h options st] by blast
  have c6: "\<not> is_blank query \<and> so_searchIn options = None \<longrightarrow>
        sr_total (search h query options st)
          = length (filter (\<lambda>m. 0 < node_score ?d (query_terms query) (m\<lparr>url := None\<rparr>)) (nodes st))
        \<and> (\<forall>m. Some m \<in> item_node ` set (sorted_results h query options (nodes st))
                \<longleftrightarrow> m \<in> set (nodes st)
                    \<and> 0 < node_score ?d (query_terms query) (m\<lparr>url := None\<rparr>))
        \<and> (\<forall>r \<in> set (sr_results (search h query options st)).
              \<exists>m \<in> set (nodes st).
                hit_node r = Some m
                \<and> 0 < node_score ?d (query_terms query) (m\<lparr>url := None\<rparr>))"
  proof (intro impI, elim conjE)
    assume nb: "\<not> is_blank query" and none: "so_searchIn options = None"
    have eq: "node_score (opt_searchIn options) (query_terms query) m
        = node_score ?d (query_terms query) (m\<lparr>url := None\<rparr>)" for m
      using same [OF d_url, of "query_terms query" m] by (simp add: dflt [OF none])
    show "sr_total (search h query options st)
          = length (filter (\<lambda>m. 0 < node_score ?d (query_terms query) (m\<lparr>url := None\<rparr>)) (nodes st))
        \<and> (\<forall>m. Some m \<in> item_node ` set (sorted_results h query options (nodes st))
                \<longleftrightarrow> m \<in> set (nodes st)
                    \<and> 0 < node_score ?d (query_terms query) (m\<lparr>url := None\<rparr>))
        \<and> (\<forall>r \<in> set (sr_results (search h query options st)).
              \<exists>m \<in> set (nodes st).
                hit_node r = Some m
                \<and> 0 < node_score ?d (query_terms query) (m\<lparr>url := None\<rparr>))"
    proof (intro conjI)
      show "sr_total (search h query options st)
          = length (filter (\<lambda>m. 0 < node_score ?d (query_terms query) (m\<lparr>url := None\<rparr>))
                      (nodes st))"
        using total [OF nb] unfolding eq .
      show "\<forall>m. Some m \<in> item_node ` set (sorted_results h query options (nodes st))
                \<longleftrightarrow> m \<in> set (nodes st)
                    \<and> 0 < node_score ?d (query_terms query) (m\<lparr>url := None\<rparr>)"
        using found [OF nb] unfolding eq by auto
      show "\<forall>r \<in> set (sr_results (search h query options st)).
              \<exists>m \<in> set (nodes st).
                hit_node r = Some m
                \<and> 0 < node_score ?d (query_terms query) (m\<lparr>url := None\<rparr>)"
        using search_hits [OF nb, of _ h options st] unfolding eq by blast
    qed
  qed
  have c7: "\<not> is_blank query \<and> ''url'' \<in> set (opt_searchIn options) \<and> n \<in> set (nodes st)
        \<and> truthy_str (url n) \<and> 0 < term_matches (query_terms query) (the (url n)) \<longrightarrow>
        Some n \<in> item_node ` set (sorted_results h query options (nodes st))"
  proof (intro impI, elim conjE)
    assume nb: "\<not> is_blank query" and u: "''url'' \<in> set (opt_searchIn options)"
      and n: "n \<in> set (nodes st)" and t: "truthy_str (url n)"
      and pos: "0 < term_matches (query_terms query) (the (url n))"
    have "url_match (opt_searchIn options) (query_terms query) n
        = term_matches (query_terms query) (the (url n))"
      using u t by (simp add: url_match_def)
    then have "0 < url_match (opt_searchIn options) (query_terms query) n"
      using pos by simp
    moreover have "0 \<le> node_score (opt_searchIn options) (query_terms query) (n\<lparr>url := None\<rparr>)"
      by (simp add: node_score_def)
    ultimately have "0 < node_score (opt_searchIn options) (query_terms query) n"
      using node_score_url [of "opt_searchIn options" "query_terms query" n] by simp
    then show "Some n \<in> item_node ` set (sorted_results h query options (nodes st))"
      using n unfolding found [OF nb] by simp
  qed
  from c1 c2 c3 c4 c5 c6 c7 show ?thesis
    by (intro conjI)
qed

theorem search_default_fields_witness:
  "so_searchIn default_search = None
   \<and> ''url'' \<in> set [''url'']
   \<and> url (last (nodes example_store)) = Some ''https://doc.rust-lang.org''
   \<and> truthy_str (url (last (nodes example_store)))
   \<and> url_match (opt_searchIn default_search) [''lang''] (last (nodes example_store)) = 0
   \<and> url_match [''url''] [''lang''] (last (nodes example_store)) = 1
   \<and> sr_total (search example_host ''lang'' (default_search\<lparr>so_searchIn := Some [''url'']\<rparr>)
        example_store) = 1
   \<and> ''url'' \<notin> set [''title'']
   \<and> url_match [''title''] [''lang''] (last (nodes example_store)) = 0
   \<and> \<not> is_blank ''lang''
   \<and> last (nodes example_store) \<in> set (nodes example_store)
   \<and> 0 < term_matches (query_terms ''lang'') (the (url (last (nodes example_store))))
   \<and> sr_total (search example_host ''lang'' default_search example_store) = 0
   \<and> Some (last (nodes example_store))
        \<notin> item_node ` set (sorted_results example_host ''lang'' default_search
                              (nodes example_store))
   \<and> ''url'' \<in> set (opt_searchIn (default_search\<lparr>so_searchIn := Some [''url'']\<rparr>))
   \<and> Some (last (nodes example_store))
        \<in> item_node ` set (sorted_results example_host ''lang''
                              (default_search\<lparr>so_searchIn := Some [''url'']\<rparr>)
                              (nodes example_store))"
proof -
  let ?d = "last (nodes example_store)"
  let ?u = "default_search\<lparr>so_searchIn := Some [''url'']\<rparr>"
  have h: "so_searchIn default_search = None"
    by (simp add: default_search_def)
  have u: "url ?d = Some ''https://doc.rust-lang.org''"
    and t: "truthy_str (url ?d)"
    and m: "term_matches [''lang''] (the (url ?d)) = 1"
    and s: "sr_total (search example_host ''lang'' ?u example_store) = 1"
    and nb: "\<not> is_blank ''lang''"
    and pos: "0 < term_matches (query_terms ''lang'') (the (url ?d))"
    and uin: "''url'' \<in> set (opt_searchIn ?u)"
    and none: "length (filter (\<lambda>m. 0 < node_score [''title'', ''content'', ''categories'', ''tags'']
                                        (query_terms ''lang'') (m\<lparr>url := None\<rparr>))
                         (nodes example_store)) = 0"
    and z0: "\<not> 0 < node_score [''title'', ''content'', ''categories'', ''tags'']
                     (query_terms ''lang'') (?d\<lparr>url := None\<rparr>)"
    and ne: "nodes example_store \<noteq> []"
    by code_simp+
  have stored: "?d \<in> set (nodes example_store)"
    using ne by (rule last_in_set)
  have mem: "''url'' \<in> set [''url'']" and nmem: "''url'' \<notin> set [''title'']"
    by simp_all
  note th = search_default_fields [of default_search "[''lang'']" ?d "[''url'']" "''lang''"
      example_host example_store]
  note th' = search_default_fields [of ?u "[''lang'']" ?d "[''title'']" "''lang''"
      example_host example_store]
  from th h have z: "url_match (opt_searchIn default_search) [''lang''] ?d = 0"
    by blast
  from th mem t have "url_match [''url''] [''lang''] ?d = term_matches [''lang''] (the (url ?d))"
    by blast
  with m have o: "url_match [''url''] [''lang''] ?d = 1"
    by simp
  from th' nmem have zt: "url_match [''title''] [''lang''] ?d = 0"
    by blast
  from th nb h have "sr_total (search example_host ''lang'' default_search example_store)
      = length (filter (\<lambda>m. 0 < node_score [''title'', ''content'', ''categories'', ''tags'']
                                  (query_terms ''lang'') (m\<lparr>url := None\<rparr>))
                  (nodes example_store))"
    by blast
  with none have total: "sr_total (search example_host ''lang'' default_search example_store) = 0"
    by simp
  from th nb h have "Some ?d \<in> item_node ` set (sorted_results example_host ''lang''
                                                  default_search (nodes example_store))
      \<longleftrightarrow> ?d \<in> set (nodes example_store)
          \<and> 0 < node_score [''title'', ''content'', ''categories'', ''tags'']
                  (query_terms ''lang'') (?d\<lparr>url := None\<rparr>)"
    by blast
  with z0 have missing: "Some ?d \<notin> item_node ` set (sorted_results example_host ''lang''
                                                       default_search (nodes example_store))"
    by blast
  from th' nb uin stored t pos
  have found: "Some ?d \<in> item_node ` set (sorted_results example_host ''lang'' ?u
                                             (nodes example_store))"
    by blast
  from h mem u t z o s nmem zt nb stored pos total missing uin found show ?thesis
    by blast
qed

theorem search_default_url_counterexample:
  "opt_searchIn default_search \<noteq> [''title'', ''content'', ''categories'', ''tags'', ''url'']
   \<and> map url (nodes example_store) = [None, None, None, Some ''https://doc.rust-lang.org'']
   \<and> sr_total (search example_host ''lang'' default_search example_store) = 0"
  by code_simp

end
